theory Spec2Isabelle
  imports Main "HOL-Library.Sublist"
begin

section \<open>Strings\<close>

text \<open>
  A Go string is a sequence of bytes: \<^typ>\<open>string\<close>. The functions of package
  \<^verbatim>\<open>strings\<close> that cli.go calls are written out on bytes. The bytes of a space and
  of a dash never occur inside a multi-byte UTF-8 sequence, so the byte-wise reading of
  \<^verbatim>\<open>ContainsRune(s, ' ')\<close>, \<^verbatim>\<open>LastIndex(s, " ")\<close>, \<^verbatim>\<open>Count(s, " ")\<close> and
  \<^verbatim>\<open>TrimRight(s, " ")\<close> is the rune-wise one.
\<close>

abbreviation SP :: char where
  "SP \<equiv> CHR 0x20"

abbreviation DASH :: char where
  "DASH \<equiv> CHR 0x2D"

text \<open>\<^verbatim>\<open>strings.ContainsRune(s, ' ')\<close>\<close>

definition ContainsSpace :: "string \<Rightarrow> bool" where
  "ContainsSpace s = (SP \<in> set s)"

text \<open>\<^verbatim>\<open>strings.LastIndex(s, " ")\<close>: the index of the last space, \<open>None\<close> for -1.\<close>

fun LastIndex :: "string \<Rightarrow> nat option" where
  "LastIndex [] = None"
| "LastIndex (x # xs) =
     (case LastIndex xs of
        Some i \<Rightarrow> Some (Suc i)
      | None \<Rightarrow> if x = SP then Some 0 else None)"

text \<open>\<^verbatim>\<open>strings.Count(s, " ")\<close>\<close>

definition Count :: "string \<Rightarrow> nat" where
  "Count s = length (filter (\<lambda>x. x = SP) s)"

text \<open>\<^verbatim>\<open>strings.Join(elems, " ")\<close>\<close>

fun Join :: "string list \<Rightarrow> string" where
  "Join [] = []"
| "Join [x] = x"
| "Join (x # y # ys) = x @ SP # Join (y # ys)"

text \<open>\<^verbatim>\<open>strings.TrimRight(s, " ")\<close>\<close>

definition TrimRight :: "string \<Rightarrow> string" where
  "TrimRight s = rev (dropWhile (\<lambda>x. x = SP) (rev s))"

text \<open>
  \<^verbatim>\<open>strings.TrimSpace\<close> removes the leading and the trailing runes for which
  \<^verbatim>\<open>unicode.IsSpace\<close> holds. \<open>spaceRunes\<close> lists the UTF-8 encodings of these
  code points: U+0009 to U+000D, U+0020, U+0085, U+00A0, U+1680, U+2000 to U+200A,
  U+2028, U+2029, U+202F, U+205F and U+3000. Each encoding is a well-formed sequence,
  so the decoder reads it as that rune both forwards and backwards.
\<close>

definition spaceRunes :: "string list" where
  "spaceRunes =
     [[CHR 0x09], [CHR 0x0A], [CHR 0x0B], [CHR 0x0C], [CHR 0x0D], [CHR 0x20],
      [CHR 0xC2, CHR 0x85], [CHR 0xC2, CHR 0xA0],
      [CHR 0xE1, CHR 0x9A, CHR 0x80],
      [CHR 0xE2, CHR 0x80, CHR 0x80], [CHR 0xE2, CHR 0x80, CHR 0x81],
      [CHR 0xE2, CHR 0x80, CHR 0x82], [CHR 0xE2, CHR 0x80, CHR 0x83],
      [CHR 0xE2, CHR 0x80, CHR 0x84], [CHR 0xE2, CHR 0x80, CHR 0x85],
      [CHR 0xE2, CHR 0x80, CHR 0x86], [CHR 0xE2, CHR 0x80, CHR 0x87],
      [CHR 0xE2, CHR 0x80, CHR 0x88], [CHR 0xE2, CHR 0x80, CHR 0x89],
      [CHR 0xE2, CHR 0x80, CHR 0x8A],
      [CHR 0xE2, CHR 0x80, CHR 0xA8], [CHR 0xE2, CHR 0x80, CHR 0xA9],
      [CHR 0xE2, CHR 0x80, CHR 0xAF],
      [CHR 0xE2, CHR 0x81, CHR 0x9F],
      [CHR 0xE3, CHR 0x80, CHR 0x80]]"

text \<open>The width in bytes of the space rune a string starts with (ends with); 0 if none.\<close>

definition leadingSpace :: "string \<Rightarrow> nat" where
  "leadingSpace s =
     (case find (\<lambda>w. prefix w s) spaceRunes of None \<Rightarrow> 0 | Some w \<Rightarrow> length w)"

definition trailingSpace :: "string \<Rightarrow> nat" where
  "trailingSpace s =
     (case find (\<lambda>w. suffix w s) spaceRunes of None \<Rightarrow> 0 | Some w \<Rightarrow> length w)"

lemma spaceRunes_nonempty: "w \<in> set spaceRunes \<Longrightarrow> w \<noteq> []"
  by (auto simp: spaceRunes_def)

lemma leadingSpace_le: "leadingSpace s \<le> length s"
  by (auto simp: leadingSpace_def prefix_length_le find_Some_iff split: option.splits)

lemma trailingSpace_le: "trailingSpace s \<le> length s"
  by (auto simp: trailingSpace_def suffix_length_le find_Some_iff split: option.splits)

function TrimLeftSpace :: "string \<Rightarrow> string" where
  "TrimLeftSpace s =
     (if leadingSpace s = 0 then s else TrimLeftSpace (drop (leadingSpace s) s))"
  by pat_completeness auto
termination
proof (relation "measure length")
  fix s :: string
  assume "leadingSpace s \<noteq> 0"
  with leadingSpace_le [of s] show "(drop (leadingSpace s) s, s) \<in> measure length"
    by simp
qed simp

function TrimRightSpace :: "string \<Rightarrow> string" where
  "TrimRightSpace s =
     (if trailingSpace s = 0 then s
      else TrimRightSpace (take (length s - trailingSpace s) s))"
  by pat_completeness auto
termination
proof (relation "measure length")
  fix s :: string
  assume "trailingSpace s \<noteq> 0"
  with trailingSpace_le [of s]
  show "(take (length s - trailingSpace s) s, s) \<in> measure length"
    by simp
qed simp

declare TrimLeftSpace.simps [simp del] TrimRightSpace.simps [simp del]

definition TrimSpace :: "string \<Rightarrow> string" where
  "TrimSpace s = TrimRightSpace (TrimLeftSpace s)"


section \<open>Commands and factories\<close>

text \<open>
  The interface \<^verbatim>\<open>Command\<close> has the methods \<^verbatim>\<open>Help()\<close>, \<^verbatim>\<open>Synopsis()\<close> and
  \<^verbatim>\<open>Run(args) int\<close>; a command is the record of what they return. Exit codes are Go
  \<^verbatim>\<open>int\<close>s on which no arithmetic is done: \<^typ>\<open>int\<close>. A \<^verbatim>\<open>CommandFactory\<close> is
  \<^verbatim>\<open>func() (Command, error)\<close>: \<open>Inr\<close> is the answer of a command with no error,
  \<open>Inl\<close> the answer of the nil command with an error. The optional interface
  \<^verbatim>\<open>CommandHelpTemplate\<close> is left out: help is rendered with the default template.
\<close>

record Command =
  Command_Help :: string
  Command_Synopsis :: string
  Command_Run :: "string list \<Rightarrow> int"

type_synonym CommandFactory = "string + Command"

text \<open>
  Modelled from the spec: the reserved result sentinel of section 6. Its declaration is
  not part of cli.go; the code only compares with it, and no result below depends on
  its value.
\<close>

definition RunResultHelp :: int where
  "RunResultHelp = - 18511"

text \<open>
  Modelled from the spec: \<^verbatim>\<open>MockCommand\<close>, the no-op command of section 3, is declared
  outside cli.go. cli.go and the tests set its fields \<^verbatim>\<open>HelpText\<close>, \<^verbatim>\<open>RunResult\<close> and
  \<^verbatim>\<open>SynopsisText\<close>; its methods return them.
\<close>

definition MockCommand :: "string \<Rightarrow> int \<Rightarrow> string \<Rightarrow> Command" where
  "MockCommand HelpText RunResult SynopsisText =
     \<lparr>Command_Help = HelpText, Command_Synopsis = SynopsisText,
      Command_Run = (\<lambda>args. RunResult)\<rparr>"

text \<open>The factory that \<^verbatim>\<open>init\<close> inserts for a missing parent (lines 294 to 299).\<close>

definition placeholder :: CommandFactory where
  "placeholder =
     Inr (MockCommand ''This command is accessed by using one of the subcommands below.''
            RunResultHelp [])"

section \<open>The prefix registry\<close>

text \<open>
  Modelled from the spec: the registry of section 4.1 (package \<^verbatim>\<open>radix\<close> is imported by
  cli.go and is not part of it). The tree is the list of its entries, one per key:
  \<open>Insert\<close> stores a value under a path, the last write for a path winning; \<open>Get\<close> is
  the exact match; \<open>LongestPrefix\<close> returns the longest registered key that is a
  prefix of the path, byte by byte; \<open>Walk\<close> visits every key, \<open>WalkPrefix\<close> every key
  that has the given prefix.
\<close>

type_synonym Tree = "(string \<times> CommandFactory) list"

definition New :: Tree where
  "New = []"

fun Insert :: "string \<Rightarrow> CommandFactory \<Rightarrow> Tree \<Rightarrow> Tree" where
  "Insert k v [] = [(k, v)]"
| "Insert k v ((k', v') # t) = (if k = k' then (k, v) # t else (k', v') # Insert k v t)"

definition Get :: "Tree \<Rightarrow> string \<Rightarrow> CommandFactory option" where
  "Get t k = map_of t k"

definition LongestPrefix :: "Tree \<Rightarrow> string \<Rightarrow> (string \<times> CommandFactory) option" where
  "LongestPrefix t s =
     (case find (\<lambda>k. Get t k \<noteq> None) (rev (prefixes s)) of
        None \<Rightarrow> None
      | Some k \<Rightarrow> (case Get t k of None \<Rightarrow> None | Some v \<Rightarrow> Some (k, v)))"

definition Walk :: "Tree \<Rightarrow> string list" where
  "Walk t = map fst t"

definition WalkPrefix :: "Tree \<Rightarrow> string \<Rightarrow> string list" where
  "WalkPrefix t p = filter (\<lambda>k. prefix p k) (map fst t)"

section \<open>The CLI\<close>

text \<open>
  The exported fields of \<^verbatim>\<open>CLI\<close> that the dispatcher reads. \<open>Commands\<close> is a Go map:
  a list of entries, read in the order of the list (Go leaves the order of a map's
  iteration open). \<open>HelpFunc\<close> is the caller's function from the listed commands to the
  help text. The two writers are named by their role.
\<close>

record CLI =
  Args :: "string list"
  Commands :: "(string \<times> CommandFactory) list"
  HiddenCommands :: "string list"
  Name :: string
  Version :: string
  HelpFunc :: "(string \<times> CommandFactory) list \<Rightarrow> string"

text \<open>
  The fields that \<^verbatim>\<open>init\<close> sets, once for a CLI value (\<^verbatim>\<open>sync.Once\<close>). They start
  at Go's zero values.
\<close>

record state =
  commandTree :: Tree
  commandNested :: bool
  commandHidden :: "string list"
  subcommand :: string
  subcommandArgs :: "string list"
  topFlags :: "string list"
  isHelp :: bool
  isVersion :: bool

definition zero :: state where
  "zero = \<lparr>commandTree = New, commandNested = False, commandHidden = [],
           subcommand = [], subcommandArgs = [], topFlags = [],
           isHelp = False, isVersion = False\<rparr>"

subsection \<open>processArgs\<close>

text \<open>
  Where one pass of the loop over \<^verbatim>\<open>c.Args\<close> leaves control: at the next pass, after
  the loop (\<^verbatim>\<open>break\<close>), after the function (\<^verbatim>\<open>return\<close>), or in a panic.
\<close>

datatype ctl = Continue state | Break state | Return state | Panic

text \<open>Go's slice expressions \<^verbatim>\<open>a[i:j]\<close> and \<^verbatim>\<open>a[i:]\<close>, which panic out of range.\<close>

definition slice :: "'a list \<Rightarrow> nat \<Rightarrow> nat \<Rightarrow> 'a list option" where
  "slice a i j = (if i \<le> j \<and> j \<le> length a then Some (take (j - i) (drop i a)) else None)"

definition sliceFrom :: "'a list \<Rightarrow> nat \<Rightarrow> 'a list option" where
  "sliceFrom a i = (if i \<le> length a then Some (drop i a) else None)"

text \<open>
  The inner loop of lines 477 to 484: \<open>j\<close> starts at 0 and becomes \<open>i + k + 1\<close> for
  every \<open>k\<close> before the first element of \<^verbatim>\<open>c.Args[i:]\<close> that has a space, is blank or
  starts with a dash.
\<close>

definition endsSubcommand :: "string \<Rightarrow> bool" where
  "endsSubcommand v = (ContainsSpace v \<or> v = [] \<or> hd v = DASH)"

definition searchEnd :: "string list \<Rightarrow> nat \<Rightarrow> nat" where
  "searchEnd args i =
     (let n = length (takeWhile (\<lambda>v. \<not> endsSubcommand v) (drop i args))
      in if n = 0 then 0 else i + n)"

text \<open>
  Go's \<^verbatim>\<open>utf8.DecodeRuneInString\<close>, on bytes. \<open>runeWidth s\<close> is the size of the
  well-formed encoding that \<open>s\<close> starts with, and 0 where the decoder answers
  \<^verbatim>\<open>(RuneError, 1)\<close>: the first byte tells the size and the range of the second byte
  (\<^verbatim>\<open>first\<close> and \<^verbatim>\<open>acceptRanges\<close>), every later byte is between 0x80 and 0xBF.
\<close>

definition acceptTail :: "nat \<Rightarrow> nat \<Rightarrow> nat \<Rightarrow> string \<Rightarrow> bool" where
  "acceptTail lo hi n r =
     (case r of
        [] \<Rightarrow> False
      | s1 # r' \<Rightarrow>
          lo \<le> of_char s1 \<and> of_char s1 \<le> hi \<and> n \<le> length r' \<and>
          list_all (\<lambda>b. (0x80 :: nat) \<le> of_char b \<and> of_char b \<le> (0xBF :: nat)) (take n r'))"

definition runeWidth :: "string \<Rightarrow> nat" where
  "runeWidth s =
     (case s of
        [] \<Rightarrow> 0
      | s0 # r \<Rightarrow>
          let x = (of_char s0 :: nat) in
          if x < 0x80 then 1
          else if x < 0xC2 then 0
          else if x \<le> 0xDF then (if acceptTail 0x80 0xBF 0 r then 2 else 0)
          else if x = 0xE0 then (if acceptTail 0xA0 0xBF 1 r then 3 else 0)
          else if x = 0xED then (if acceptTail 0x80 0x9F 1 r then 3 else 0)
          else if x \<le> 0xEF then (if acceptTail 0x80 0xBF 1 r then 3 else 0)
          else if x = 0xF0 then (if acceptTail 0x90 0xBF 2 r then 4 else 0)
          else if x \<le> 0xF3 then (if acceptTail 0x80 0xBF 2 r then 4 else 0)
          else if x = 0xF4 then (if acceptTail 0x80 0x8F 2 r then 4 else 0)
          else 0)"

text \<open>
  The runes of a string, as the matcher of package \<^verbatim>\<open>regexp\<close> reads them: a rune is
  written as its encoding, and each byte of an ill-formed sequence counts as U+FFFD.
\<close>

definition RuneError :: string where
  "RuneError = [CHR 0xEF, CHR 0xBF, CHR 0xBD]"

function runes :: "string \<Rightarrow> string list" where
  "runes s =
     (if s = [] then []
      else if runeWidth s = 0 then RuneError # runes (tl s)
      else take (runeWidth s) s # runes (drop (runeWidth s) s))"
  by pat_completeness auto
termination
  by (relation "measure length") (auto simp: neq_Nil_conv)

text \<open>
  The check of \<^verbatim>\<open>regexp/syntax\<close> that the pattern is well-formed UTF-8: no step of the
  decoder answers \<^verbatim>\<open>(RuneError, 1)\<close>.
\<close>

function ValidString :: "string \<Rightarrow> bool" where
  "ValidString s =
     (if s = [] then True
      else if runeWidth s = 0 then False
      else ValidString (drop (runeWidth s) s))"
  by pat_completeness auto
termination
  by (relation "measure length") (auto simp: neq_Nil_conv)

declare runes.simps [simp del] ValidString.simps [simp del]

text \<open>
  \<^verbatim>\<open>regexp.MustCompile(regexp.QuoteMeta(k) + `( |$)`).MatchString(searchKey)\<close>.
  \<^verbatim>\<open>QuoteMeta\<close> puts a backslash before the bytes that are metacharacters, so the
  pattern is the literal \<open>k\<close> followed by a space or by the end of the text. The parser
  refuses a pattern that is not well-formed UTF-8, and \<^verbatim>\<open>MustCompile\<close> then panics:
  \<open>None\<close>. \<^verbatim>\<open>MatchString\<close> looks for the pattern anywhere in the text, rune by rune.
  (The parser's limit on the size of a pattern, some millions of runes, is left out.)
\<close>

definition MatchString :: "string \<Rightarrow> string \<Rightarrow> bool" where
  "MatchString k searchKey =
     list_ex (\<lambda>t. prefix (runes k @ [[SP]]) t \<or> t = runes k) (suffixes (runes searchKey))"

definition reVerify :: "string \<Rightarrow> string \<Rightarrow> bool option" where
  "reVerify k searchKey = (if ValidString k then Some (MatchString k searchKey) else None)"

definition isHelpFlag :: "string \<Rightarrow> bool" where
  "isHelpFlag arg = (arg = ''-h'' \<or> arg = ''-help'' \<or> arg = ''--help'')"

definition isVersionFlag :: "string \<Rightarrow> bool" where
  "isVersionFlag arg = (arg = ''-v'' \<or> arg = ''-version'' \<or> arg = ''--version'')"

text \<open>Lines 463 to 504: the argument at \<open>i\<close> starts the subcommand.\<close>

definition startSubcommand :: "string list \<Rightarrow> nat \<Rightarrow> state \<Rightarrow> ctl" where
  "startSubcommand args i c =
     (let arg = args ! i; c = c\<lparr>subcommand := arg\<rparr> in
      if commandNested c then
        if ContainsSpace arg then Return (c\<lparr>subcommand := []\<rparr>)
        else
          (case slice args i (searchEnd args i) of
             None \<Rightarrow> Panic
           | Some seg \<Rightarrow>
               let searchKey = Join seg;
                   verified =
                     (case LongestPrefix (commandTree c) searchKey of
                        None \<Rightarrow> Some (c, i)
                      | Some (k, raw) \<Rightarrow>
                          (case reVerify k searchKey of
                             None \<Rightarrow> None
                           | Some matched \<Rightarrow>
                               if matched
                               then Some (c\<lparr>subcommand := k\<rparr>, i + Count k)
                               else Some (c, i)))
               in (case verified of
                     None \<Rightarrow> Panic
                   | Some (c, i) \<Rightarrow>
                       (case sliceFrom args (i + 1) of
                          None \<Rightarrow> Panic
                        | Some rest \<Rightarrow> Continue (c\<lparr>subcommandArgs := rest\<rparr>))))
      else
        (case sliceFrom args (i + 1) of
           None \<Rightarrow> Panic
         | Some rest \<Rightarrow> Continue (c\<lparr>subcommandArgs := rest\<rparr>)))"

text \<open>The body of the loop of lines 436 to 506, for the index \<open>i < len(c.Args)\<close>.\<close>

definition processArg :: "string list \<Rightarrow> nat \<Rightarrow> state \<Rightarrow> ctl" where
  "processArg args i c =
     (let arg = args ! i in
      if arg = ''--'' then Break c
      else if isHelpFlag arg then Continue (c\<lparr>isHelp := True\<rparr>)
      else if subcommand c = [] \<and> isVersionFlag arg then Continue (c\<lparr>isVersion := True\<rparr>)
      else
        let c = (if subcommand c = [] \<and> arg \<noteq> [] \<and> hd arg = DASH
                 then c\<lparr>topFlags := topFlags c @ [arg]\<rparr> else c)
        in if subcommand c = [] \<and> arg \<noteq> [] \<and> hd arg \<noteq> DASH
           then startSubcommand args i c
           else Continue c)"

text \<open>
  The loop from index \<open>i\<close> on. The result is the state, and whether the function has
  returned from inside the loop; \<open>None\<close> is a panic.
\<close>

function processArgs_loop :: "string list \<Rightarrow> nat \<Rightarrow> state \<Rightarrow> (state \<times> bool) option" where
  "processArgs_loop args i c =
     (if i < length args then
        (case processArg args i c of
           Continue c' \<Rightarrow> processArgs_loop args (Suc i) c'
         | Break c' \<Rightarrow> Some (c', False)
         | Return c' \<Rightarrow> Some (c', True)
         | Panic \<Rightarrow> None)
      else Some (c, False))"
  by pat_completeness auto
termination
  by (relation "measure (\<lambda>(args, i, c). length args - i)") auto

declare processArgs_loop.simps [simp del]

text \<open>Lines 508 to 517: the default command, looked up in \<^verbatim>\<open>c.Commands\<close>.\<close>

definition defaultCommand :: "CLI \<Rightarrow> state \<Rightarrow> state" where
  "defaultCommand cli c =
     (if subcommand c = [] \<and> map_of (Commands cli) [] \<noteq> None
      then c\<lparr>topFlags := [], subcommandArgs := topFlags c @ subcommandArgs c\<rparr>
      else c)"

definition processArgs :: "CLI \<Rightarrow> state \<Rightarrow> state option" where
  "processArgs cli c =
     (case processArgs_loop (Args cli) 0 c of
        None \<Rightarrow> None
      | Some (c', returned) \<Rightarrow> Some (if returned then c' else defaultCommand cli c'))"

subsection \<open>init\<close>

text \<open>
  Lines 253 to 262: every key of \<^verbatim>\<open>c.Commands\<close> is trimmed and inserted, and a key
  with a space makes the tree nested.
\<close>

fun buildTree :: "(string \<times> CommandFactory) list \<Rightarrow> Tree \<times> bool \<Rightarrow> Tree \<times> bool" where
  "buildTree [] (t, nested) = (t, nested)"
| "buildTree ((k, v) # cmds) (t, nested) =
     (let k = TrimSpace k
      in buildTree cmds (Insert k v t, if ContainsSpace k then True else nested))"

lemma LastIndex_less: "LastIndex k = Some idx \<Longrightarrow> idx < length k"
  by (induction k arbitrary: idx) (auto split: option.splits if_splits)

text \<open>
  The walk function of lines 268 to 287. It collects in \<open>toInsert\<close> the parents that
  the tree lacks, calling itself on each of them, and always answers \<^verbatim>\<open>false\<close>, so
  that the walk goes on to the next key.
\<close>

function walkFn :: "Tree \<Rightarrow> string \<Rightarrow> string list \<Rightarrow> string list" where
  "walkFn t k toInsert =
     (case LastIndex k of
        None \<Rightarrow> toInsert
      | Some idx \<Rightarrow>
          let k = take idx k
          in if Get t k \<noteq> None then toInsert
             else walkFn t k (List.insert k toInsert))"
  by pat_completeness auto
termination
  by (relation "measure (\<lambda>(t, k, toInsert). length k)") (auto dest: LastIndex_less)

declare walkFn.simps [simp del]

text \<open>Lines 264 to 303: the walk over every key, then the insertion of the placeholders.\<close>

definition fillParents :: "Tree \<Rightarrow> Tree" where
  "fillParents t =
     (let toInsert = fold (walkFn t) (Walk t) []
      in fold (\<lambda>k. Insert k placeholder) toInsert t)"

definition buildCommands :: "CLI \<Rightarrow> state \<Rightarrow> state" where
  "buildCommands cli c =
     (let (t, nested) = buildTree (Commands cli) (New, False)
      in c\<lparr>commandHidden := HiddenCommands cli,
            commandTree := (if nested then fillParents t else t),
            commandNested := nested\<rparr>)"

definition init :: "CLI \<Rightarrow> state option" where
  "init cli = processArgs cli (buildCommands cli zero)"

subsection \<open>helpCommands and subcommandParent\<close>

text \<open>
  Lines 415 to 430: the factory of every key, without the hidden ones. A key that the
  tree does not hold is the panic of line 421.
\<close>

fun helpEntries :: "Tree \<Rightarrow> string list \<Rightarrow> string list \<Rightarrow> (string \<times> CommandFactory) list option" where
  "helpEntries t hidden [] = Some []"
| "helpEntries t hidden (k # keys) =
     (case Get t k of
        None \<Rightarrow> None
      | Some raw \<Rightarrow>
          (case helpEntries t hidden keys of
             None \<Rightarrow> None
           | Some result \<Rightarrow> Some (if k \<in> set hidden then result else (k, raw) # result)))"

definition helpCommands :: "state \<Rightarrow> string \<Rightarrow> (string \<times> CommandFactory) list option" where
  "helpCommands c pre =
     (let pre = (if pre \<noteq> [] \<and> last pre \<noteq> SP then pre @ [SP] else pre);
          keys = filter (\<lambda>k. \<not> ContainsSpace (drop (length pre) k))
                   (WalkPrefix (commandTree c) pre)
      in helpEntries (commandTree c) (commandHidden c) keys)"

definition subcommandParent :: "state \<Rightarrow> string" where
  "subcommandParent c =
     (let sub = subcommand c in
      if sub = [] then sub
      else
        let sub = TrimRight sub in
        (case LastIndex sub of
           None \<Rightarrow> []
         | Some idx \<Rightarrow> take idx sub))"

subsection \<open>commandHelp\<close>

text \<open>
  What \<^verbatim>\<open>Run\<close> does besides returning, one event for each statement with an effect:
  the three kinds of \<^verbatim>\<open>Write\<close> (the version line, the text of \<^verbatim>\<open>HelpFunc\<close>, the
  message about flags before the subcommand), the call of the factory registered under
  the resolved path, the call \<^verbatim>\<open>command.Run(args)\<close> for the command of that path, and
  the call \<^verbatim>\<open>c.commandHelp(out, command)\<close> when it returns. The event of
  \<^verbatim>\<open>commandHelp\<close> stands for the whole call, with the calls of the children's factories
  and the rendering through \<^verbatim>\<open>text/template\<close> inside it.
\<close>

datatype writer = HelpWriter | ErrorWriter

datatype event =
    WriteVersion string
  | WriteHelp writer string
  | WriteInvalidFlags
  | CallFactory string
  | CommandHelp writer string
  | CommandRun string "string list"

text \<open>
  The loop of lines 356 to 381 over the immediate subcommands: the key, the help and the
  synopsis of each. After the error of a factory the loop writes a message and goes on
  to call \<^verbatim>\<open>sub.Help()\<close> on the nil command, which panics: \<open>None\<close>.
\<close>

fun subcommandsTpl :: "(string \<times> CommandFactory) list \<Rightarrow> (string \<times> string \<times> string) list option" where
  "subcommandsTpl [] = Some []"
| "subcommandsTpl ((k, raw) # subcommands) =
     (case raw of
        Inl e \<Rightarrow> None
      | Inr sub \<Rightarrow>
          (case subcommandsTpl subcommands of
             None \<Rightarrow> None
           | Some tpl \<Rightarrow> Some ((k, Command_Help sub, Command_Synopsis sub) # tpl)))"

text \<open>
  Lines 309 to 394. In a nested registry the subcommands are those of
  \<^verbatim>\<open>helpCommands\<close> for the resolved path; otherwise the list stays empty.
\<close>

definition commandHelp :: "state \<Rightarrow> writer \<Rightarrow> event list option" where
  "commandHelp c out =
     (if commandNested c then
        (case helpCommands c (subcommand c) of
           None \<Rightarrow> None
         | Some subcommands \<Rightarrow>
             (case subcommandsTpl subcommands of
                None \<Rightarrow> None
              | Some tpl \<Rightarrow> Some [CommandHelp out (subcommand c)]))
      else Some [CommandHelp out (subcommand c)])"

subsection \<open>Run\<close>

text \<open>
  Lines 140 to 191. The result is the exit code, the error and the events; \<open>None\<close> is
  a panic, in \<^verbatim>\<open>init\<close> or in \<^verbatim>\<open>commandHelp\<close>.
\<close>

record result =
  code :: int
  err :: "string option"
  events :: "event list"

definition Run :: "CLI \<Rightarrow> result option" where
  "Run cli =
     (case init cli of
        None \<Rightarrow> None
      | Some c \<Rightarrow>
          if isVersion c \<and> Version cli \<noteq> [] then
            Some \<lparr>code = 0, err = None, events = [WriteVersion (Version cli @ [CHR 0x0A])]\<rparr>
          else if isHelp c \<and> subcommand c = [] then
            (case helpCommands c (subcommand c) of
               None \<Rightarrow> None
             | Some cmds \<Rightarrow>
                 Some \<lparr>code = 0, err = None,
                       events = [WriteHelp HelpWriter (HelpFunc cli cmds @ [CHR 0x0A])]\<rparr>)
          else
            (case Get (commandTree c) (subcommand c) of
               None \<Rightarrow>
                 (case helpCommands c (subcommandParent c) of
                    None \<Rightarrow> None
                  | Some cmds \<Rightarrow>
                      Some \<lparr>code = 127, err = None,
                            events = [WriteHelp ErrorWriter (HelpFunc cli cmds @ [CHR 0x0A])]\<rparr>)
             | Some raw \<Rightarrow>
                 (case raw of
                    Inl e \<Rightarrow>
                      Some \<lparr>code = 1, err = Some e, events = [CallFactory (subcommand c)]\<rparr>
                  | Inr command \<Rightarrow>
                      if isHelp c then
                        (case commandHelp c HelpWriter of
                           None \<Rightarrow> None
                         | Some rendered \<Rightarrow>
                             Some \<lparr>code = 0, err = None,
                                   events = CallFactory (subcommand c) # rendered\<rparr>)
                      else if topFlags c \<noteq> [] then
                        (case commandHelp c ErrorWriter of
                           None \<Rightarrow> None
                         | Some rendered \<Rightarrow>
                             Some \<lparr>code = 1, err = None,
                                   events = CallFactory (subcommand c) # WriteInvalidFlags #
                                            rendered\<rparr>)
                      else
                        let code = Command_Run command (subcommandArgs c) in
                        if code = RunResultHelp then
                          (case commandHelp c ErrorWriter of
                             None \<Rightarrow> None
                           | Some rendered \<Rightarrow>
                               Some \<lparr>code = 1, err = None,
                                     events = CallFactory (subcommand c) #
                                              CommandRun (subcommand c) (subcommandArgs c) #
                                              rendered\<rparr>)
                        else
                          Some \<lparr>code = code, err = None,
                                events = [CallFactory (subcommand c),
                                          CommandRun (subcommand c) (subcommandArgs c)]\<rparr>)))"

section \<open>Facts about the argument scan\<close>

lemma Count_append: "Count (a @ b) = Count a + Count b"
  by (simp add: Count_def)

lemma Count_prefix: "prefix k s \<Longrightarrow> Count k \<le> Count s"
  by (auto simp: prefix_def Count_append)

lemma Count_no_space: "\<not> ContainsSpace v \<Longrightarrow> Count v = 0"
  by (auto simp: Count_def ContainsSpace_def filter_empty_conv)

lemma Count_Join:
  "\<forall>v \<in> set seg. \<not> ContainsSpace v \<Longrightarrow> Count (Join seg) = length seg - 1"
proof (induction seg rule: Join.induct)
  case 1
  show ?case by (simp add: Count_def)
next
  case (2 x)
  then show ?case by (simp add: Count_no_space)
next
  case (3 x y ys)
  then have "Count (Join (y # ys)) = length (y # ys) - 1" by simp
  moreover have "Count x = 0" using 3 by (simp add: Count_no_space)
  moreover have "Count (x @ SP # Join (y # ys)) = Count x + 1 + Count (Join (y # ys))"
    by (simp add: Count_def)
  ultimately show ?case by simp
qed

lemma find_Some_set: "find P xs = Some x \<Longrightarrow> x \<in> set xs \<and> P x"
  by (induction xs) (auto split: if_splits)

lemma LongestPrefix_Some:
  assumes "LongestPrefix t s = Some (k, v)"
  shows "prefix k s \<and> Get t k = Some v"
proof -
  from assms obtain k' where f: "find (\<lambda>k. Get t k \<noteq> None) (rev (prefixes s)) = Some k'"
    by (auto simp: LongestPrefix_def split: option.splits)
  from find_Some_set [OF f] have "k' \<in> set (rev (prefixes s))" by blast
  then have p: "prefix k' s" by simp
  from assms f have "k' = k \<and> Get t k = Some v"
    by (auto simp: LongestPrefix_def split: option.splits)
  with p show ?thesis by simp
qed

lemma LongestPrefix_None:
  "LongestPrefix t s = None \<Longrightarrow> prefix k s \<Longrightarrow> Get t k = None"
  by (auto simp: LongestPrefix_def find_None_iff dest: find_Some_set split: option.splits)

lemma searchEnd_bounds:
  assumes "i < length args" "\<not> endsSubcommand (args ! i)"
  shows "i < searchEnd args i \<and> searchEnd args i \<le> length args"
proof -
  let ?n = "length (takeWhile (\<lambda>v. \<not> endsSubcommand v) (drop i args))"
  from assms have d: "drop i args = args ! i # drop (Suc i) args"
    by (simp add: Cons_nth_drop_Suc)
  with assms have "0 < ?n" by simp
  moreover have "?n \<le> length (drop i args)" by (rule length_takeWhile_le)
  ultimately show ?thesis using assms by (simp add: searchEnd_def Let_def)
qed

lemma slice_searchEnd:
  assumes "i < length args" "\<not> endsSubcommand (args ! i)"
  shows "slice args i (searchEnd args i) =
           Some (takeWhile (\<lambda>v. \<not> endsSubcommand v) (drop i args))"
proof -
  let ?tw = "takeWhile (\<lambda>v. \<not> endsSubcommand v) (drop i args)"
  from assms have d: "drop i args = args ! i # drop (Suc i) args"
    by (simp add: Cons_nth_drop_Suc)
  with assms have n: "0 < length ?tw" by simp
  then have j: "searchEnd args i = i + length ?tw" by (simp add: searchEnd_def Let_def)
  have "take (length ?tw) (drop i args) = ?tw"
    by (metis takeWhile_eq_take)
  with j searchEnd_bounds [OF assms] show ?thesis by (simp add: slice_def)
qed

lemma Count_searchKey:
  "Count (Join (takeWhile (\<lambda>v. \<not> endsSubcommand v) xs)) =
     length (takeWhile (\<lambda>v. \<not> endsSubcommand v) xs) - 1"
  by (rule Count_Join) (auto dest!: set_takeWhileD simp: endsSubcommand_def)


lemma startSubcommand_cases:
  assumes i: "i < length args" and ne: "args ! i \<noteq> []" and nd: "hd (args ! i) \<noteq> DASH"
  obtains
    (ret) "commandNested c" "ContainsSpace (args ! i)"
      "startSubcommand args i c = Return (c\<lparr>subcommand := []\<rparr>)"
  | (first) "startSubcommand args i c =
        Continue (c\<lparr>subcommand := args ! i, subcommandArgs := drop (Suc i) args\<rparr>)"
      "commandNested c \<longrightarrow> \<not> ContainsSpace (args ! i)"
  | (key) k raw where "commandNested c" "\<not> ContainsSpace (args ! i)"
      "LongestPrefix (commandTree c)
         (Join (takeWhile (\<lambda>v. \<not> endsSubcommand v) (drop i args))) = Some (k, raw)"
      "reVerify k (Join (takeWhile (\<lambda>v. \<not> endsSubcommand v) (drop i args))) = Some True"
      "Suc (i + Count k) \<le> length args"
      "startSubcommand args i c =
        Continue (c\<lparr>subcommand := k, subcommandArgs := drop (Suc (i + Count k)) args\<rparr>)"
  | (panic) k raw where "commandNested c" "\<not> ContainsSpace (args ! i)"
      "LongestPrefix (commandTree c)
         (Join (takeWhile (\<lambda>v. \<not> endsSubcommand v) (drop i args))) = Some (k, raw)"
      "\<not> ValidString k"
      "startSubcommand args i c = Panic"
proof (cases "commandNested c")
  case False
  with i have "startSubcommand args i c =
        Continue (c\<lparr>subcommand := args ! i, subcommandArgs := drop (Suc i) args\<rparr>)"
    by (simp add: startSubcommand_def sliceFrom_def)
  with False show ?thesis by (intro first) simp_all
next
  case nested: True
  show ?thesis
  proof (cases "ContainsSpace (args ! i)")
    case True
    with nested have "startSubcommand args i c = Return (c\<lparr>subcommand := []\<rparr>)"
      by (simp add: startSubcommand_def)
    with nested True show ?thesis by (intro ret)
  next
    case nosp: False
    let ?seg = "takeWhile (\<lambda>v. \<not> endsSubcommand v) (drop i args)"
    let ?key = "Join ?seg"
    from nosp ne nd have ok: "\<not> endsSubcommand (args ! i)"
      by (simp add: endsSubcommand_def)
    note sl = slice_searchEnd [OF i ok]
    show ?thesis
    proof (cases "LongestPrefix (commandTree c) ?key")
      case None
      with nested nosp sl i have "startSubcommand args i c =
          Continue (c\<lparr>subcommand := args ! i, subcommandArgs := drop (Suc i) args\<rparr>)"
        by (simp add: startSubcommand_def sliceFrom_def)
      with nosp show ?thesis by (intro first) simp_all
    next
      case (Some kv)
      obtain k raw where kv: "kv = (k, raw)" by (cases kv)
      note lp = Some
      show ?thesis
      proof (cases "reVerify k ?key")
        case None
        then have inv: "\<not> ValidString k" by (simp add: reVerify_def split: if_splits)
        from None lp kv nested nosp sl have "startSubcommand args i c = Panic"
          by (simp add: startSubcommand_def)
        with nested nosp lp kv inv show ?thesis by (intro panic) simp_all
      next
        case (Some matched)
        note m = Some
        show ?thesis
        proof (cases matched)
        case False
        with m lp kv nested nosp sl i
        have "startSubcommand args i c =
            Continue (c\<lparr>subcommand := args ! i, subcommandArgs := drop (Suc i) args\<rparr>)"
          by (simp add: startSubcommand_def sliceFrom_def)
        with nosp show ?thesis by (intro first) simp_all
      next
        case True
        from lp kv have "prefix k ?key" by (simp add: LongestPrefix_Some)
        then have "Count k \<le> Count ?key" by (rule Count_prefix)
        also have "\<dots> = length ?seg - 1" by (rule Count_searchKey)
        finally have "Count k \<le> length ?seg - 1" .
        moreover have "length ?seg \<le> length (drop i args)" by (rule length_takeWhile_le)
        moreover from i ok have "0 < length ?seg" by (simp add: Cons_nth_drop_Suc [symmetric])
        ultimately have bound: "Suc (i + Count k) \<le> length args" using i by simp
        with lp kv m True nested nosp sl have "startSubcommand args i c =
            Continue (c\<lparr>subcommand := k, subcommandArgs := drop (Suc (i + Count k)) args\<rparr>)"
          by (simp add: startSubcommand_def sliceFrom_def)
        with nested nosp lp kv m True bound show ?thesis by (intro key) simp_all
      qed
      qed
    qed
  qed
qed


text \<open>What one pass of the loop does to the state.\<close>

inductive_set steps :: "string list \<Rightarrow> nat \<Rightarrow> state \<Rightarrow> ctl set"
  for args :: "string list" and i :: nat and c :: state where
    s_brk: "args ! i = ''--'' \<Longrightarrow> Break c \<in> steps args i c"
  | s_help: "args ! i \<noteq> ''--'' \<Longrightarrow> isHelpFlag (args ! i) \<Longrightarrow>
      Continue (c\<lparr>isHelp := True\<rparr>) \<in> steps args i c"
  | s_version: "args ! i \<noteq> ''--'' \<Longrightarrow> \<not> isHelpFlag (args ! i) \<Longrightarrow> subcommand c = [] \<Longrightarrow>
      isVersionFlag (args ! i) \<Longrightarrow>
      Continue (c\<lparr>isVersion := True\<rparr>) \<in> steps args i c"
  | s_flag: "args ! i \<noteq> ''--'' \<Longrightarrow> \<not> isHelpFlag (args ! i) \<Longrightarrow> subcommand c = [] \<Longrightarrow>
      args ! i \<noteq> [] \<Longrightarrow> hd (args ! i) = DASH \<Longrightarrow>
      Continue (c\<lparr>topFlags := topFlags c @ [args ! i]\<rparr>) \<in> steps args i c"
  | s_skip: "args ! i \<noteq> ''--'' \<Longrightarrow> \<not> isHelpFlag (args ! i) \<Longrightarrow>
      subcommand c \<noteq> [] \<or> args ! i = [] \<Longrightarrow> Continue c \<in> steps args i c"
  | s_ret: "args ! i \<noteq> ''--'' \<Longrightarrow> \<not> isHelpFlag (args ! i) \<Longrightarrow> subcommand c = [] \<Longrightarrow>
      commandNested c \<Longrightarrow> ContainsSpace (args ! i) \<Longrightarrow>
      Return (c\<lparr>subcommand := []\<rparr>) \<in> steps args i c"
  | s_first: "args ! i \<noteq> ''--'' \<Longrightarrow> \<not> isHelpFlag (args ! i) \<Longrightarrow> subcommand c = [] \<Longrightarrow>
      args ! i \<noteq> [] \<Longrightarrow> hd (args ! i) \<noteq> DASH \<Longrightarrow>
      commandNested c \<longrightarrow> \<not> ContainsSpace (args ! i) \<Longrightarrow>
      Continue (c\<lparr>subcommand := args ! i, subcommandArgs := drop (Suc i) args\<rparr>)
        \<in> steps args i c"
  | s_key: "args ! i \<noteq> ''--'' \<Longrightarrow> \<not> isHelpFlag (args ! i) \<Longrightarrow> subcommand c = [] \<Longrightarrow>
      commandNested c \<Longrightarrow> Get (commandTree c) k \<noteq> None \<Longrightarrow>
      Suc (i + Count k) \<le> length args \<Longrightarrow>
      Continue (c\<lparr>subcommand := k, subcommandArgs := drop (Suc (i + Count k)) args\<rparr>)
        \<in> steps args i c"
  | s_panic: "commandNested c \<Longrightarrow> Get (commandTree c) k \<noteq> None \<Longrightarrow> \<not> ValidString k \<Longrightarrow>
      Panic \<in> steps args i c"

lemma processArg_steps:
  assumes i: "i < length args"
  shows "processArg args i c \<in> steps args i c"
proof -
  let ?arg = "args ! i"
  consider (a) "?arg = ''--''"
    | (b) "?arg \<noteq> ''--''" "isHelpFlag ?arg"
    | (c) "?arg \<noteq> ''--''" "\<not> isHelpFlag ?arg" "subcommand c = []" "isVersionFlag ?arg"
    | (d) "?arg \<noteq> ''--''" "\<not> isHelpFlag ?arg" "\<not> isVersionFlag ?arg" "subcommand c = []"
          "?arg \<noteq> []" "hd ?arg = DASH"
    | (e) "?arg \<noteq> ''--''" "\<not> isHelpFlag ?arg" "subcommand c \<noteq> [] \<or> ?arg = []"
    | (f) "?arg \<noteq> ''--''" "\<not> isHelpFlag ?arg" "\<not> isVersionFlag ?arg" "subcommand c = []"
          "?arg \<noteq> []" "hd ?arg \<noteq> DASH"
    by blast
  then show ?thesis
  proof cases
    case a
    then have "processArg args i c = Break c" by (simp add: processArg_def)
    with a show ?thesis by (simp add: steps.s_brk)
  next
    case b
    then have "processArg args i c = Continue (c\<lparr>isHelp := True\<rparr>)"
      by (simp add: processArg_def)
    with b show ?thesis by (simp add: steps.s_help)
  next
    case c
    then have "processArg args i c = Continue (c\<lparr>isVersion := True\<rparr>)"
      by (simp add: processArg_def)
    with c show ?thesis by (simp add: steps.s_version)
  next
    case d
    then have "processArg args i c = Continue (c\<lparr>topFlags := topFlags c @ [?arg]\<rparr>)"
      by (simp add: processArg_def Let_def)
    with d show ?thesis by (simp add: steps.s_flag)
  next
    case e
    then have "processArg args i c = Continue c"
      by (auto simp: processArg_def Let_def isVersionFlag_def)
    with e show ?thesis by (simp add: steps.s_skip)
  next
    case f
    then have p: "processArg args i c = startSubcommand args i c"
      by (simp add: processArg_def Let_def)
    from i f(5,6) show ?thesis
    proof (cases rule: startSubcommand_cases [where c = c])
      case ret
      with p f show ?thesis by (simp add: steps.s_ret)
    next
      case first
      with p f show ?thesis by (simp add: steps.s_first)
    next
      case (key k raw)
      from key(3) have "Get (commandTree c) k \<noteq> None" by (simp add: LongestPrefix_Some)
      with p f key show ?thesis by (simp add: steps.s_key)
    next
      case (panic k raw)
      from panic(3) have "Get (commandTree c) k \<noteq> None" by (simp add: LongestPrefix_Some)
      with p panic show ?thesis by (simp add: steps.s_panic [where k = k])
    qed
  qed
qed

lemma processArgs_loop_invariant:
  assumes "processArgs_loop args i c = Some (c', b)"
    and "P c"
    and "\<And>j d r d'. j < length args \<Longrightarrow> P d \<Longrightarrow> r \<in> steps args j d \<Longrightarrow>
           r = Continue d' \<or> r = Break d' \<or> r = Return d' \<Longrightarrow> P d'"
  shows "P c'"
  using assms
proof (induction args i c rule: processArgs_loop.induct)
  case (1 args i c)
  note step = "1.prems"(3)
  show ?case
  proof (cases "i < length args")
    case False
    with 1 show ?thesis by (simp add: processArgs_loop.simps)
  next
    case True
    note st = processArg_steps [OF True, of c]
    note pc = "1.prems"(2)
    show ?thesis
    proof (cases "processArg args i c")
      case (Continue d)
      with True "1.prems" have l: "processArgs_loop args (Suc i) d = Some (c', b)"
        by (simp add: processArgs_loop.simps [of args i])
      have "P d"
        by (rule step [OF True pc st]) (simp add: Continue)
      with l show ?thesis using "1.IH" [OF True Continue] step by blast
    next
      case (Break d)
      with True "1.prems" have "c' = d" by (simp add: processArgs_loop.simps [of args i])
      moreover have "P d"
        by (rule step [OF True pc st]) (simp add: Break)
      ultimately show ?thesis by simp
    next
      case (Return d)
      with True "1.prems" have "c' = d" by (simp add: processArgs_loop.simps [of args i])
      moreover have "P d"
        by (rule step [OF True pc st]) (simp add: Return)
      ultimately show ?thesis by simp
    next
      case Panic
      with True "1.prems" show ?thesis by (simp add: processArgs_loop.simps [of args i])
    qed
  qed
qed

lemma buildCommands_fields:
  "subcommand (buildCommands cli zero) = []"
  "subcommandArgs (buildCommands cli zero) = []"
  "topFlags (buildCommands cli zero) = []"
  "isHelp (buildCommands cli zero) = False"
  "isVersion (buildCommands cli zero) = False"
  by (simp_all add: buildCommands_def zero_def Let_def split: prod.splits)

lemma steps_registry:
  assumes "r \<in> steps args j d" "r = Continue d' \<or> r = Break d' \<or> r = Return d'"
  shows "commandTree d' = commandTree d \<and> commandNested d' = commandNested d \<and>
         commandHidden d' = commandHidden d"
  using assms by (auto elim!: steps.cases)

lemma processArgs_loop_registry:
  assumes "processArgs_loop args i c = Some (c', b)"
  shows "commandTree c' = commandTree c \<and> commandNested c' = commandNested c \<and>
         commandHidden c' = commandHidden c"
  by (rule processArgs_loop_invariant [OF assms,
        where P = "\<lambda>d. commandTree d = commandTree c \<and> commandNested d = commandNested c \<and>
                      commandHidden d = commandHidden c"])
     (auto dest: steps_registry)

lemma defaultCommand_registry:
  "commandTree (defaultCommand cli c) = commandTree c"
  "commandNested (defaultCommand cli c) = commandNested c"
  "commandHidden (defaultCommand cli c) = commandHidden c"
  "subcommand (defaultCommand cli c) = subcommand c"
  "isHelp (defaultCommand cli c) = isHelp c"
  "isVersion (defaultCommand cli c) = isVersion c"
  by (simp_all add: defaultCommand_def)

lemma init_cases:
  assumes "init cli = Some c"
  obtains c' b where
    "processArgs_loop (Args cli) 0 (buildCommands cli zero) = Some (c', b)"
    "c = (if b then c' else defaultCommand cli c')"
  using assms by (auto simp: init_def processArgs_def split: option.splits)

lemma init_registry:
  assumes "init cli = Some c"
  shows "commandTree c = commandTree (buildCommands cli zero)"
    and "commandNested c = commandNested (buildCommands cli zero)"
    and "commandHidden c = commandHidden (buildCommands cli zero)"
proof -
  from assms obtain c' b
    where l: "processArgs_loop (Args cli) 0 (buildCommands cli zero) = Some (c', b)"
    and c: "c = (if b then c' else defaultCommand cli c')"
    by (rule init_cases)
  from processArgs_loop_registry [OF l] c
  show "commandTree c = commandTree (buildCommands cli zero)"
    and "commandNested c = commandNested (buildCommands cli zero)"
    and "commandHidden c = commandHidden (buildCommands cli zero)"
    by (simp_all add: defaultCommand_registry)
qed

text \<open>
  The scan panics only where the pattern is compiled from a key that is not well-formed
  UTF-8: with well-formed keys \<^verbatim>\<open>init\<close> returns.
\<close>

lemma processArgs_loop_returns:
  assumes "\<And>k. Get (commandTree c) k \<noteq> None \<Longrightarrow> ValidString k"
  shows "processArgs_loop args i c \<noteq> None"
  using assms
proof (induction args i c rule: processArgs_loop.induct)
  case (1 args i c)
  show ?case
  proof (cases "i < length args")
    case False
    then show ?thesis by (simp add: processArgs_loop.simps)
  next
    case True
    note st = processArg_steps [OF True, of c]
    show ?thesis
    proof (cases "processArg args i c")
      case (Continue d)
      with st have "commandTree d = commandTree c" by (auto dest: steps_registry)
      with "1.prems" have "\<And>k. Get (commandTree d) k \<noteq> None \<Longrightarrow> ValidString k" by simp
      with "1.IH" [OF True Continue] have "processArgs_loop args (Suc i) d \<noteq> None" by blast
      with True Continue show ?thesis by (simp add: processArgs_loop.simps [of args i])
    next
      case (Break d)
      with True show ?thesis by (simp add: processArgs_loop.simps [of args i])
    next
      case (Return d)
      with True show ?thesis by (simp add: processArgs_loop.simps [of args i])
    next
      case Panic
      with st "1.prems" show ?thesis by (auto elim: steps.cases)
    qed
  qed
qed

lemma init_returns:
  assumes "\<And>k. Get (commandTree (buildCommands cli zero)) k \<noteq> None \<Longrightarrow> ValidString k"
  shows "init cli \<noteq> None"
  using processArgs_loop_returns [of "buildCommands cli zero" "Args cli" 0, OF assms]
  by (auto simp: init_def processArgs_def split: option.splits)

lemma steps_suffix:
  assumes "r \<in> steps args j d" "r = Continue d' \<or> r = Break d' \<or> r = Return d'"
    and "suffix (subcommandArgs d) args"
  shows "suffix (subcommandArgs d') args"
  using assms by (auto elim!: steps.cases simp: suffix_drop)

section \<open>Example command lines\<close>

text \<open>
  The registries of the tests \<^verbatim>\<open>TestCLIRun\<close> and \<^verbatim>\<open>TestCLIRun_nested\<close>, with mock
  commands that return 5 and 6, and a \<^verbatim>\<open>HelpFunc\<close> that writes the listed keys.
\<close>

definition nestedExample :: "string list \<Rightarrow> CLI" where
  "nestedExample args =
     \<lparr>Args = args,
      Commands = [(''foo'', Inr (MockCommand [] 5 [])), (''foo bar'', Inr (MockCommand [] 6 []))],
      HiddenCommands = [], Name = ''app'', Version = [],
      HelpFunc = (\<lambda>cmds. concat (map fst cmds))\<rparr>"


text \<open>
  A nested registry whose key starts with the byte 0xFF, which is not well-formed UTF-8.
  \<^verbatim>\<open>init\<close> inserts that byte as the parent; an argument equal to it has it as its
  longest prefix, and the compilation of the pattern panics. Another argument is
  classified as usual.
\<close>

definition illFormedExample :: "string list \<Rightarrow> CLI" where
  "illFormedExample args =
     \<lparr>Args = args,
      Commands = [([CHR 0xFF] @ '' bar'', Inr (MockCommand [] 0 []))],
      HiddenCommands = [], Name = ''app'', Version = [],
      HelpFunc = (\<lambda>cmds. concat (map fst cmds))\<rparr>"

lemma init_panics_on_ill_formed_key:
  "map_option subcommand (init (illFormedExample [[CHR 0xFF]])) = None \<and>
   map_option subcommand (init (illFormedExample [''foo''])) = Some ''foo''"
  by code_simp

section \<open>The resolved path and its arguments\<close>

text \<open>
  Claim C9. Whenever the classification yields a non-empty \<open>subcommand\<close>, the
  \<open>subcommandArgs\<close> are a suffix of the argument vector: the arguments from some index
  to the end, unchanged and in order.
\<close>

theorem subcommandArgs_suffix:
  assumes "init cli = Some c" and "subcommand c \<noteq> []"
  shows "suffix (subcommandArgs c) (Args cli)"
proof -
  from assms(1) obtain c' b
    where l: "processArgs_loop (Args cli) 0 (buildCommands cli zero) = Some (c', b)"
    and i: "c = (if b then c' else defaultCommand cli c')"
    by (rule init_cases)
  have "suffix (subcommandArgs c') (Args cli)"
    by (rule processArgs_loop_invariant [OF l,
          where P = "\<lambda>d. suffix (subcommandArgs d) (Args cli)"])
       (auto simp: buildCommands_fields dest: steps_suffix)
  moreover from i assms have "c = c'"
    by (auto simp: defaultCommand_def split: if_splits)
  ultimately show ?thesis by simp
qed

theorem subcommandArgs_suffix_witness:
  "\<exists>c. init (nestedExample [''foo'', ''bar'', ''-x'', ''baz'']) = Some c \<and>
       subcommand c = ''foo bar'' \<and>
       suffix (subcommandArgs c) (Args (nestedExample [''foo'', ''bar'', ''-x'', ''baz'']))"
proof -
  let ?cli = "nestedExample [''foo'', ''bar'', ''-x'', ''baz'']"
  have "map_option subcommand (init ?cli) = Some ''foo bar''"
    by code_simp
  then obtain c where c: "init ?cli = Some c" and s: "subcommand c = ''foo bar''"
    by auto
  from s have "subcommand c \<noteq> []" by simp
  with c have "suffix (subcommandArgs c) (Args ?cli)" by (rule subcommandArgs_suffix)
  with c s show ?thesis by blast
qed

text \<open>
  A path is accounted for when it is blank, a key of the tree, or an argument that does
  not start with a dash.
\<close>

definition isKey :: "Tree \<Rightarrow> string \<Rightarrow> bool" where
  "isKey t k = (case Get t k of None \<Rightarrow> False | Some raw \<Rightarrow> True)"

lemma isKey_iff: "isKey t k \<longleftrightarrow> Get t k \<noteq> None"
  by (simp add: isKey_def split: option.splits)






section \<open>The help and version flags\<close>







section \<open>Run\<close>

text \<open>\<^verbatim>\<open>helpCommands\<close> never reaches its panic.\<close>

lemma helpEntries_total:
  "\<forall>k \<in> set keys. Get t k \<noteq> None \<Longrightarrow> helpEntries t hidden keys \<noteq> None"
  by (induction keys) (auto split: option.splits)

lemma helpCommands_total: "helpCommands c p \<noteq> None"
proof -
  have "Get t k \<noteq> None" if "k \<in> set (WalkPrefix t q)" for t k q
    using that by (auto simp: WalkPrefix_def Get_def map_of_eq_None_iff)
  then show ?thesis
    unfolding helpCommands_def Let_def by (intro helpEntries_total) auto
qed

lemma commandHelp_Some:
  "commandHelp c out = Some rendered \<Longrightarrow> rendered = [CommandHelp out (subcommand c)]"
  by (auto simp: commandHelp_def split: if_splits option.splits)

lemma commandHelp_writer:
  "commandHelp c out = None \<longleftrightarrow> commandHelp c out' = None"
  by (auto simp: commandHelp_def split: if_splits option.splits)

text \<open>
  The ways through \<^verbatim>\<open>Run\<close>: one for each \<^verbatim>\<open>return\<close>, and the panic inside
  \<^verbatim>\<open>commandHelp\<close>.
\<close>

lemma Run_cases:
  assumes c: "init cli = Some c"
  obtains
    (r_version) "isVersion c" "Version cli \<noteq> []"
      "Run cli = Some \<lparr>code = 0, err = None,
                       events = [WriteVersion (Version cli @ [CHR 0x0A])]\<rparr>"
  | (r_roothelp) cmds where "\<not> (isVersion c \<and> Version cli \<noteq> [])" "isHelp c" "subcommand c = []"
      "helpCommands c (subcommand c) = Some cmds"
      "Run cli = Some \<lparr>code = 0, err = None,
                       events = [WriteHelp HelpWriter (HelpFunc cli cmds @ [CHR 0x0A])]\<rparr>"
  | (r_notfound) cmds where "\<not> (isVersion c \<and> Version cli \<noteq> [])"
      "\<not> (isHelp c \<and> subcommand c = [])"
      "Get (commandTree c) (subcommand c) = None"
      "helpCommands c (subcommandParent c) = Some cmds"
      "Run cli = Some \<lparr>code = 127, err = None,
                       events = [WriteHelp ErrorWriter (HelpFunc cli cmds @ [CHR 0x0A])]\<rparr>"
  | (r_failed) e where "\<not> (isVersion c \<and> Version cli \<noteq> [])"
      "\<not> (isHelp c \<and> subcommand c = [])"
      "Get (commandTree c) (subcommand c) = Some (Inl e)"
      "Run cli = Some \<lparr>code = 1, err = Some e, events = [CallFactory (subcommand c)]\<rparr>"
  | (r_help) command where "\<not> (isVersion c \<and> Version cli \<noteq> [])" "subcommand c \<noteq> []"
      "Get (commandTree c) (subcommand c) = Some (Inr command)" "isHelp c"
      "commandHelp c HelpWriter \<noteq> None"
      "Run cli = Some \<lparr>code = 0, err = None,
                       events = [CallFactory (subcommand c),
                                 CommandHelp HelpWriter (subcommand c)]\<rparr>"
  | (r_flags) command where "\<not> (isVersion c \<and> Version cli \<noteq> [])"
      "Get (commandTree c) (subcommand c) = Some (Inr command)" "\<not> isHelp c"
      "topFlags c \<noteq> []" "commandHelp c ErrorWriter \<noteq> None"
      "Run cli = Some \<lparr>code = 1, err = None,
                       events = [CallFactory (subcommand c), WriteInvalidFlags,
                                 CommandHelp ErrorWriter (subcommand c)]\<rparr>"
  | (r_sentinel) command where "\<not> (isVersion c \<and> Version cli \<noteq> [])"
      "Get (commandTree c) (subcommand c) = Some (Inr command)" "\<not> isHelp c"
      "topFlags c = []" "Command_Run command (subcommandArgs c) = RunResultHelp"
      "commandHelp c ErrorWriter \<noteq> None"
      "Run cli = Some \<lparr>code = 1, err = None,
                       events = [CallFactory (subcommand c),
                                 CommandRun (subcommand c) (subcommandArgs c),
                                 CommandHelp ErrorWriter (subcommand c)]\<rparr>"
  | (r_ran) command where "\<not> (isVersion c \<and> Version cli \<noteq> [])"
      "Get (commandTree c) (subcommand c) = Some (Inr command)" "\<not> isHelp c"
      "topFlags c = []" "Command_Run command (subcommandArgs c) \<noteq> RunResultHelp"
      "Run cli = Some \<lparr>code = Command_Run command (subcommandArgs c), err = None,
                       events = [CallFactory (subcommand c),
                                 CommandRun (subcommand c) (subcommandArgs c)]\<rparr>"
  | (r_panic) command where "\<not> (isVersion c \<and> Version cli \<noteq> [])"
      "\<not> (isHelp c \<and> subcommand c = [])"
      "Get (commandTree c) (subcommand c) = Some (Inr command)"
      "isHelp c \<or> topFlags c \<noteq> [] \<or> Command_Run command (subcommandArgs c) = RunResultHelp"
      "commandHelp c ErrorWriter = None"
      "Run cli = None"
proof (cases "isVersion c \<and> Version cli \<noteq> []")
  case True
  with c have "Run cli = Some \<lparr>code = 0, err = None,
                       events = [WriteVersion (Version cli @ [CHR 0x0A])]\<rparr>"
    by (simp add: Run_def)
  with True show ?thesis by (intro r_version) simp_all
next
  case nv: False
  show ?thesis
  proof (cases "isHelp c \<and> subcommand c = []")
    case True
    obtain cmds where h: "helpCommands c (subcommand c) = Some cmds"
      using helpCommands_total [of c "subcommand c"] by auto
    with c nv True have "Run cli = Some \<lparr>code = 0, err = None,
                       events = [WriteHelp HelpWriter (HelpFunc cli cmds @ [CHR 0x0A])]\<rparr>"
      by (auto simp: Run_def)
    with nv True h show ?thesis by (intro r_roothelp) simp_all
  next
    case nh: False
    show ?thesis
    proof (cases "Get (commandTree c) (subcommand c)")
      case None
      obtain cmds where h: "helpCommands c (subcommandParent c) = Some cmds"
        using helpCommands_total [of c "subcommandParent c"] by auto
      with c nv nh None have "Run cli = Some \<lparr>code = 127, err = None,
                       events = [WriteHelp ErrorWriter (HelpFunc cli cmds @ [CHR 0x0A])]\<rparr>"
        by (auto simp: Run_def)
      with nv nh None h show ?thesis by (intro r_notfound) simp_all
    next
      case (Some raw)
      show ?thesis
      proof (cases raw)
        case (Inl e)
        with c nv nh Some have "Run cli =
            Some \<lparr>code = 1, err = Some e, events = [CallFactory (subcommand c)]\<rparr>"
          by (auto simp: Run_def)
        with nv nh Some Inl show ?thesis by (intro r_failed) simp_all
      next
        case (Inr command)
        note g = Some [unfolded Inr]
        consider (a) "isHelp c" | (b) "\<not> isHelp c" "topFlags c \<noteq> []"
          | (d) "\<not> isHelp c" "topFlags c = []"
                "Command_Run command (subcommandArgs c) = RunResultHelp"
          | (e) "\<not> isHelp c" "topFlags c = []"
                "Command_Run command (subcommandArgs c) \<noteq> RunResultHelp"
          by blast
        then show ?thesis
        proof cases
          case a
          with nh have ne: "subcommand c \<noteq> []" by simp
          show ?thesis
          proof (cases "commandHelp c HelpWriter")
            case None
            with c nv ne g a have "Run cli = None" by (auto simp: Run_def)
            moreover from None have "commandHelp c ErrorWriter = None"
              by (simp add: commandHelp_writer [of c ErrorWriter HelpWriter])
            ultimately show ?thesis using nv nh g a by (intro r_panic) simp_all
          next
            case (Some rendered)
            with c nv ne g a commandHelp_Some [OF Some]
            have "Run cli = Some \<lparr>code = 0, err = None,
                       events = [CallFactory (subcommand c),
                                 CommandHelp HelpWriter (subcommand c)]\<rparr>"
              by (auto simp: Run_def)
            with nv ne g a Some show ?thesis by (intro r_help) simp_all
          qed
        next
          case b
          show ?thesis
          proof (cases "commandHelp c ErrorWriter")
            case None
            with c nv g b have "Run cli = None" by (auto simp: Run_def)
            with None nv nh g b show ?thesis by (intro r_panic) simp_all
          next
            case (Some rendered)
            with c nv g b commandHelp_Some [OF Some]
            have "Run cli = Some \<lparr>code = 1, err = None,
                       events = [CallFactory (subcommand c), WriteInvalidFlags,
                                 CommandHelp ErrorWriter (subcommand c)]\<rparr>"
              by (auto simp: Run_def)
            with nv g b Some show ?thesis by (intro r_flags) simp_all
          qed
        next
          case d
          show ?thesis
          proof (cases "commandHelp c ErrorWriter")
            case None
            with c nv g d have "Run cli = None" by (auto simp: Run_def)
            with None nv nh g d show ?thesis by (intro r_panic) simp_all
          next
            case (Some rendered)
            with c nv g d commandHelp_Some [OF Some]
            have "Run cli = Some \<lparr>code = 1, err = None,
                       events = [CallFactory (subcommand c),
                                 CommandRun (subcommand c) (subcommandArgs c),
                                 CommandHelp ErrorWriter (subcommand c)]\<rparr>"
              by (auto simp: Run_def)
            with nv g d Some show ?thesis by (intro r_sentinel) simp_all
          qed
        next
          case e
          with c nv g have "Run cli =
              Some \<lparr>code = Command_Run command (subcommandArgs c), err = None,
                       events = [CallFactory (subcommand c),
                                 CommandRun (subcommand c) (subcommandArgs c)]\<rparr>"
            by (auto simp: Run_def)
          with nv g e show ?thesis by (intro r_ran) simp_all
        qed
      qed
    qed
  qed
qed

lemma Run_init: "Run cli = Some r \<Longrightarrow> \<exists>c. init cli = Some c"
  by (simp add: Run_def split: option.splits)

subsection \<open>The outcomes of an invocation\<close>

text \<open>
  The outcomes of section 8, read off the result of \<^verbatim>\<open>Run\<close>: the version line was
  written; help went to the help writer with exit code 0; a command was run; the help
  of \<^verbatim>\<open>HelpFunc\<close> went to the error writer with exit code 127; the message about flags
  before the subcommand was written. A sixth one is the error of the factory of the
  resolved path.
\<close>

definition versionShown :: "result \<Rightarrow> bool" where
  "versionShown r = list_ex (\<lambda>e. case e of WriteVersion v \<Rightarrow> True | _ \<Rightarrow> False) (events r)"

definition helpShown :: "result \<Rightarrow> bool" where
  "helpShown r =
     (code r = 0 \<and>
      list_ex (\<lambda>e. case e of WriteHelp w t \<Rightarrow> w = HelpWriter
                            | CommandHelp w k \<Rightarrow> w = HelpWriter
                            | _ \<Rightarrow> False) (events r))"

definition commandDispatched :: "result \<Rightarrow> bool" where
  "commandDispatched r =
     list_ex (\<lambda>e. case e of CommandRun k args \<Rightarrow> True | _ \<Rightarrow> False) (events r)"

definition unresolved127 :: "result \<Rightarrow> bool" where
  "unresolved127 r =
     (code r = 127 \<and>
      list_ex (\<lambda>e. case e of WriteHelp w t \<Rightarrow> w = ErrorWriter | _ \<Rightarrow> False) (events r))"

definition leadingFlagError :: "result \<Rightarrow> bool" where
  "leadingFlagError r =
     (code r = 1 \<and> list_ex (\<lambda>e. case e of WriteInvalidFlags \<Rightarrow> True | _ \<Rightarrow> False) (events r))"

definition constructionError :: "result \<Rightarrow> bool" where
  "constructionError r = (case err r of None \<Rightarrow> False | Some e \<Rightarrow> True)"

definition outcomes :: "bool list \<Rightarrow> nat" where
  "outcomes bs = length (filter (\<lambda>b. b) bs)"

lemmas outcome_defs = outcomes_def versionShown_def helpShown_def commandDispatched_def
  unresolved127_def leadingFlagError_def constructionError_def

definition failingExample :: "string list \<Rightarrow> CLI" where
  "failingExample args =
     \<lparr>Args = args,
      Commands = [(''foo'', Inl ''construction failed'')],
      HiddenCommands = [], Name = ''app'', Version = [],
      HelpFunc = (\<lambda>cmds. concat (map fst cmds))\<rparr>"

definition missingParentExample :: "string list \<Rightarrow> CLI" where
  "missingParentExample args =
     \<lparr>Args = args,
      Commands = [(''foo bar'', Inr (MockCommand [] 0 ''hi!''))],
      HiddenCommands = [], Name = ''app'', Version = [],
      HelpFunc = (\<lambda>cmds. concat (map fst cmds))\<rparr>"


text \<open>
  A nested registry in which the command of \<^verbatim>\<open>foo\<close> asks for its help, by returning
  \<open>RunResultHelp\<close>, and the factory of its child \<^verbatim>\<open>foo bar\<close> fails.
\<close>

definition brokenChildExample :: "string list \<Rightarrow> CLI" where
  "brokenChildExample args =
     \<lparr>Args = args,
      Commands = [(''foo'', Inr (MockCommand [] RunResultHelp [])),
                  (''foo bar'', Inl ''construction failed'')],
      HiddenCommands = [], Name = ''app'', Version = [],
      HelpFunc = (\<lambda>cmds. concat (map fst cmds))\<rparr>"

text \<open>
  There \<^verbatim>\<open>Run\<close> does not return when the help of \<^verbatim>\<open>foo\<close> is asked for, nor when a
  flag stands before \<^verbatim>\<open>foo\<close>: both ways lead into \<^verbatim>\<open>commandHelp\<close>.
\<close>

lemma commandHelp_panics_on_failing_child:
  "Run (brokenChildExample [''foo'', ''-h'']) = None \<and>
   Run (brokenChildExample [''-x'', ''foo'']) = None"
  by code_simp

text \<open>
  Claim C2, amended. An invocation of \<^verbatim>\<open>Run\<close> that returns has exactly one of six
  outcomes: the five of the claim (version shown, help shown, command dispatched,
  unresolved with 127, leading-flag error) and the construction error, where the factory
  of the resolved path fails and \<^verbatim>\<open>Run\<close> returns 1 with that error.
\<close>

theorem Run_one_of_six_outcomes:
  assumes "Run cli = Some r"
  shows "outcomes [versionShown r, helpShown r, commandDispatched r, unresolved127 r,
                   leadingFlagError r, constructionError r] = 1"
proof -
  from assms obtain c where c: "init cli = Some c" by (auto dest: Run_init)
  then show ?thesis
    by (cases rule: Run_cases) (use assms in \<open>auto simp: outcome_defs\<close>)
qed

theorem Run_one_of_six_outcomes_witness:
  "\<exists>r. Run (nestedExample [''foo'', ''bar'', ''-x'']) = Some r \<and> commandDispatched r \<and>
       code r = 6 \<and>
       outcomes [versionShown r, helpShown r, commandDispatched r, unresolved127 r,
                 leadingFlagError r, constructionError r] = 1"
proof -
  let ?cli = "nestedExample [''foo'', ''bar'', ''-x'']"
  have "map_option (\<lambda>r. (commandDispatched r, code r)) (Run ?cli) = Some (True, 6)"
    by code_simp
  then obtain r where r: "Run ?cli = Some r" and d: "commandDispatched r" "code r = 6"
    by auto
  from Run_one_of_six_outcomes [OF r] r d show ?thesis by blast
qed

text \<open>
  Claim C2 as stated fails: when the factory of \<^verbatim>\<open>foo\<close> returns an error, \<^verbatim>\<open>Run\<close>
  returns 1 and the error after the call of the factory, and none of the five outcomes
  has occurred.
\<close>

theorem Run_five_outcomes_counterexample:
  "map_option (\<lambda>r. (code r, err r, events r,
       outcomes [versionShown r, helpShown r, commandDispatched r, unresolved127 r,
                 leadingFlagError r]))
     (Run (failingExample [''foo''])) =
   Some (1, Some ''construction failed'', [CallFactory ''foo''], 0)"
  by code_simp

subsection \<open>The result of the command\<close>

text \<open>
  Whenever \<^verbatim>\<open>Run\<close> returns after it has run a command, it is the command of the
  resolved path, run on the \<open>subcommandArgs\<close>. If it returned \<open>RunResultHelp\<close>,
  \<^verbatim>\<open>Run\<close> has called \<^verbatim>\<open>commandHelp\<close> with the error writer and returns 1; every
  other result is returned as it is.
\<close>

lemma sentinel_becomes_one:
  assumes "init cli = Some c" and "Run cli = Some r"
    and "CommandRun k args \<in> set (events r)"
  shows "\<exists>command. Get (commandTree c) k = Some (Inr command) \<and>
           k = subcommand c \<and> args = subcommandArgs c \<and>
           (if Command_Run command args = RunResultHelp
            then code r = 1 \<and>
                 events r = [CallFactory k, CommandRun k args, CommandHelp ErrorWriter k]
            else code r = Command_Run command args \<and>
                 events r = [CallFactory k, CommandRun k args])"
  using assms(1)
proof (cases rule: Run_cases)
  case (r_sentinel command)
  with assms show ?thesis by auto
next
  case (r_ran command)
  with assms show ?thesis by auto
qed (use assms in auto)

text \<open>
  Claim C6 at a failing input. In the nested registry in which the command of
  \<^verbatim>\<open>foo\<close> returns \<open>RunResultHelp\<close> and the factory of the child \<^verbatim>\<open>foo bar\<close> fails,
  the argument \<^verbatim>\<open>foo\<close> resolves to the command of \<^verbatim>\<open>foo\<close>, with no flag before it
  and no help flag, and \<^verbatim>\<open>Run\<close> runs it. \<^verbatim>\<open>Run\<close> calls \<^verbatim>\<open>commandHelp\<close> with the error writer,
  which calls the factory of the child \<^verbatim>\<open>foo bar\<close>, writes that it failed, and then
  calls \<^verbatim>\<open>Help\<close> on the nil command: the program panics, and \<^verbatim>\<open>Run\<close> returns neither 1
  nor anything else.
\<close>

theorem sentinel_help_panics:
  "map_option (\<lambda>c. (commandNested c, subcommand c, subcommandArgs c, topFlags c,
                    isHelp c, isVersion c,
                    map_option (map_sum id (\<lambda>command. Command_Run command [] = RunResultHelp))
                      (Get (commandTree c) ''foo''),
                    map_option (map (\<lambda>(k, raw). (k, isl raw))) (helpCommands c (subcommand c)),
                    commandHelp c ErrorWriter))
     (init (brokenChildExample [''foo''])) =
     Some (True, ''foo'', [], [], False, False, Some (Inr True),
           Some [(''foo bar'', True)], None) \<and>
   Run (brokenChildExample [''foo'']) = None"
  by code_simp

subsection \<open>The default command\<close>



subsection \<open>The unresolved path\<close>







section \<open>The verification of the longest prefix\<close>

text \<open>
  The acceptance of a match as the specification words it: the matched key ends in the
  candidate at a segment boundary, that is at the candidate's end or before a space.
\<close>

definition spec_segmentBoundary :: "string \<Rightarrow> string \<Rightarrow> bool" where
  "spec_segmentBoundary k candidate =
     (prefix k candidate \<and> (length k = length candidate \<or> candidate ! length k = SP))"

text \<open>
  Claim C1 at a failing input. With the registry of \<^verbatim>\<open>foo\<close> and \<^verbatim>\<open>foo bar\<close> and the
  arguments \<^verbatim>\<open>foobar foo\<close>, the candidate is \<^verbatim>\<open>foobar foo\<close> and its longest registered
  prefix \<^verbatim>\<open>foo\<close> ends inside the first segment. The pattern of line 495 is not anchored
  at the start, and matches the second \<^verbatim>\<open>foo\<close>: the match is accepted, the path is the
  partial segment \<^verbatim>\<open>foo\<close>, and \<^verbatim>\<open>Run\<close> runs that command with the exit code 5 instead
  of returning 127. For the single argument \<^verbatim>\<open>foobar\<close> the result is 127.
\<close>

theorem partial_segment_accepted:
  "Join [''foobar'', ''foo''] = ''foobar foo'' \<and>
   map_option fst
     (LongestPrefix (commandTree (buildCommands (nestedExample [''foobar'', ''foo'']) zero))
        ''foobar foo'') = Some ''foo'' \<and>
   \<not> spec_segmentBoundary ''foo'' ''foobar foo'' \<and>
   reVerify ''foo'' ''foobar foo'' = Some True \<and>
   map_option (\<lambda>c. (subcommand c, subcommandArgs c)) (init (nestedExample [''foobar'', ''foo'']))
     = Some (''foo'', [''foo'']) \<and>
   map_option (\<lambda>r. (code r, events r)) (Run (nestedExample [''foobar'', ''foo''])) =
     Some (5, [CallFactory ''foo'', CommandRun ''foo'' [''foo'']]) \<and>
   map_option code (Run (nestedExample [''foobar''])) = Some 127"
  by code_simp

section \<open>The registry after init\<close>

lemma Get_Insert: "Get (Insert k v t) k' = (if k' = k then Some v else Get t k')"
  by (induction t) (auto simp: Get_def)

lemma Get_fold_Insert:
  "Get (fold (\<lambda>k. Insert k v) ins t) k = (if k \<in> set ins then Some v else Get t k)"
  by (induction ins arbitrary: t) (auto simp: Get_Insert)

lemma Get_Walk: "Get t k \<noteq> None \<longleftrightarrow> k \<in> set (Walk t)"
  by (simp add: Get_def Walk_def map_of_eq_None_iff)

lemma buildTree_Get:
  assumes "buildTree cmds (t, n) = (t', n')" and "Get t' k = Some v"
  shows "Get t k = Some v \<or> (\<exists>k0. (k0, v) \<in> set cmds \<and> TrimSpace k0 = k)"
  using assms
proof (induction cmds arbitrary: t n)
  case Nil
  then show ?case by simp
next
  case (Cons a cmds)
  obtain k0 v0 where a: "a = (k0, v0)" by (cases a)
  from Cons.prems(1) a
  have "buildTree cmds (Insert (TrimSpace k0) v0 t,
          if ContainsSpace (TrimSpace k0) then True else n) = (t', n')"
    by (simp add: Let_def)
  from Cons.IH [OF this Cons.prems(2)] a show ?case
    by (auto simp: Get_Insert split: if_splits)
qed

lemma buildTree_keys:
  assumes "buildTree cmds (t, n) = (t', n')"
  shows "Get t' k \<noteq> None \<longleftrightarrow> Get t k \<noteq> None \<or> k \<in> TrimSpace ` fst ` set cmds"
  using assms
proof (induction cmds arbitrary: t n)
  case Nil
  then show ?case by simp
next
  case (Cons a cmds)
  obtain k0 v0 where a: "a = (k0, v0)" by (cases a)
  from Cons.prems(1) a
  have "buildTree cmds (Insert (TrimSpace k0) v0 t,
          if ContainsSpace (TrimSpace k0) then True else n) = (t', n')"
    by (simp add: Let_def)
  from Cons.IH [OF this] a show ?case
    by (auto simp: Get_Insert split: if_splits)
qed

text \<open>The ancestors of a path: the path cut at its last space, again and again.\<close>

function ancestors :: "string \<Rightarrow> string list" where
  "ancestors k =
     (case LastIndex k of None \<Rightarrow> [] | Some idx \<Rightarrow> take idx k # ancestors (take idx k))"
  by pat_completeness auto
termination
  by (relation "measure length") (auto dest: LastIndex_less)

declare ancestors.simps [simp del]

text \<open>The parent of a key is in the tree, or among the paths to insert.\<close>

definition parentOK :: "Tree \<Rightarrow> string list \<Rightarrow> string \<Rightarrow> bool" where
  "parentOK t R k =
     (case LastIndex k of
        None \<Rightarrow> True
      | Some idx \<Rightarrow> Get t (take idx k) \<noteq> None \<or> take idx k \<in> set R)"

lemma parentOK_mono: "parentOK t R k \<Longrightarrow> set R \<subseteq> set R' \<Longrightarrow> parentOK t R' k"
  by (auto simp: parentOK_def split: option.splits)

lemma walkFn_mono: "set toInsert \<subseteq> set (walkFn t k toInsert)"
proof (induction t k toInsert rule: walkFn.induct)
  case (1 t k toInsert)
  show ?case
  proof (cases "LastIndex k")
    case None
    then show ?thesis by (simp add: walkFn.simps [of t k] Let_def)
  next
    case (Some idx)
    show ?thesis
    proof (cases "Get t (take idx k) \<noteq> None")
      case True
      with Some show ?thesis by (simp add: walkFn.simps [of t k] Let_def)
    next
      case False
      with Some 1 [OF Some refl] show ?thesis
        by (auto simp: walkFn.simps [of t k] Let_def)
    qed
  qed
qed

lemma walkFn_new:
  "x \<in> set (walkFn t k toInsert) \<Longrightarrow>
     x \<in> set toInsert \<or> (x \<in> set (ancestors k) \<and> Get t x = None)"
proof (induction t k toInsert rule: walkFn.induct)
  case (1 t k toInsert)
  show ?case
  proof (cases "LastIndex k")
    case None
    with "1.prems" show ?thesis by (simp add: walkFn.simps [of t k] Let_def)
  next
    case (Some idx)
    show ?thesis
    proof (cases "Get t (take idx k) \<noteq> None")
      case True
      with Some "1.prems" show ?thesis by (simp add: walkFn.simps [of t k] Let_def)
    next
      case False
      with Some "1.prems"
      have "x \<in> set (walkFn t (take idx k) (List.insert (take idx k) toInsert))"
        by (simp add: walkFn.simps [of t k] Let_def)
      from "1.IH" [OF Some refl _ this] False Some show ?thesis
        by (auto simp: ancestors.simps [of k])
    qed
  qed
qed

lemma walkFn_closed:
  "parentOK t (walkFn t k toInsert) k \<and>
   (\<forall>x \<in> set (walkFn t k toInsert). x \<notin> set toInsert \<longrightarrow> parentOK t (walkFn t k toInsert) x)"
proof (induction t k toInsert rule: walkFn.induct)
  case (1 t k toInsert)
  show ?case
  proof (cases "LastIndex k")
    case None
    then show ?thesis by (simp add: walkFn.simps [of t k] Let_def parentOK_def)
  next
    case (Some idx)
    show ?thesis
    proof (cases "Get t (take idx k) \<noteq> None")
      case True
      with Some show ?thesis by (simp add: walkFn.simps [of t k] Let_def parentOK_def)
    next
      case False
      let ?k = "take idx k"
      let ?R = "walkFn t ?k (List.insert ?k toInsert)"
      from False Some have w: "walkFn t k toInsert = ?R"
        by (simp add: walkFn.simps [of t k] Let_def)
      from "1.IH" [OF Some refl] False
      have ih: "parentOK t ?R ?k"
        "\<forall>x \<in> set ?R. x \<notin> set (List.insert ?k toInsert) \<longrightarrow> parentOK t ?R x"
        by auto
      have "?k \<in> set ?R" using walkFn_mono [of "List.insert ?k toInsert" t ?k] by auto
      with Some have "parentOK t ?R k" by (simp add: parentOK_def)
      moreover from ih have "\<forall>x \<in> set ?R. x \<notin> set toInsert \<longrightarrow> parentOK t ?R x"
        by auto
      ultimately show ?thesis unfolding w by simp
    qed
  qed
qed


lemma fold_walkFn:
  "set ins \<subseteq> set (fold (walkFn t) ks ins) \<and>
   (\<forall>k \<in> set ks. parentOK t (fold (walkFn t) ks ins) k) \<and>
   (\<forall>x \<in> set (fold (walkFn t) ks ins).
      x \<in> set ins \<or>
      (parentOK t (fold (walkFn t) ks ins) x \<and> Get t x = None \<and>
       (\<exists>k \<in> set ks. x \<in> set (ancestors k))))"
proof (induction ks arbitrary: ins)
  case Nil
  show ?case by simp
next
  case (Cons k ks)
  let ?ins = "walkFn t k ins"
  let ?R = "fold (walkFn t) ks ?ins"
  note ih = Cons.IH [of ?ins]
  from ih have sub: "set ?ins \<subseteq> set ?R" by simp
  have a: "set ins \<subseteq> set ?R" using walkFn_mono [of ins t k] sub by blast
  have b: "parentOK t ?R k"
    using walkFn_closed [of t k ins] sub by (blast intro: parentOK_mono)
  have c: "x \<in> set ins \<or>
      (parentOK t ?R x \<and> Get t x = None \<and> (\<exists>k' \<in> set (k # ks). x \<in> set (ancestors k')))"
    if x: "x \<in> set ?R" for x
  proof -
    from ih have "\<forall>x \<in> set ?R. x \<in> set ?ins \<or>
        (parentOK t ?R x \<and> Get t x = None \<and> (\<exists>k' \<in> set ks. x \<in> set (ancestors k')))"
      by (elim conjE)
    then have "x \<in> set ?ins \<or>
        (parentOK t ?R x \<and> Get t x = None \<and> (\<exists>k' \<in> set ks. x \<in> set (ancestors k')))"
      using x by (rule bspec)
    then consider (old) "x \<in> set ?ins"
      | (new) "parentOK t ?R x" "Get t x = None" "\<exists>k' \<in> set ks. x \<in> set (ancestors k')"
      by auto
    then show ?thesis
    proof cases
      case old
      show ?thesis
      proof (cases "x \<in> set ins")
        case True
        then show ?thesis by simp
      next
        case False
        with old walkFn_new [of x t k ins]
        have "x \<in> set (ancestors k)" "Get t x = None" by auto
        moreover from old False walkFn_closed [of t k ins] have "parentOK t ?ins x" by blast
        then have "parentOK t ?R x" using sub by (rule parentOK_mono)
        ultimately show ?thesis by simp
      qed
    next
      case new
      then show ?thesis by auto
    qed
  qed
  from a b c ih show ?case by simp
qed

text \<open>The paths that lines 290 to 302 insert into the tree.\<close>

definition toInsert :: "Tree \<Rightarrow> string list" where
  "toInsert t = fold (walkFn t) (Walk t) []"

lemma fillParents_Get:
  "Get (fillParents t) k = (if k \<in> set (toInsert t) then Some placeholder else Get t k)"
  by (simp add: fillParents_def toInsert_def Let_def Get_fold_Insert)

lemma toInsert_new:
  assumes "x \<in> set (toInsert t)"
  shows "Get t x = None \<and> (\<exists>k \<in> set (Walk t). x \<in> set (ancestors k))"
  using fold_walkFn [of "[]" t "Walk t"] assms by (auto simp: toInsert_def)

lemma fillParents_closed:
  assumes "Get (fillParents t) k \<noteq> None" and "LastIndex k = Some idx"
  shows "Get (fillParents t) (take idx k) \<noteq> None"
proof -
  have "parentOK t (toInsert t) k"
  proof (cases "k \<in> set (toInsert t)")
    case True
    with fold_walkFn [of "[]" t "Walk t"] show ?thesis by (auto simp: toInsert_def)
  next
    case False
    with assms(1) have "Get t k \<noteq> None" by (simp add: fillParents_Get)
    then have "k \<in> set (Walk t)" by (rule Get_Walk [THEN iffD1])
    with fold_walkFn [of "[]" t "Walk t"] show ?thesis by (auto simp: toInsert_def)
  qed
  with assms(2) show ?thesis by (auto simp: parentOK_def fillParents_Get)
qed

lemma ancestors_closed:
  assumes "\<And>k idx. Get t k \<noteq> None \<Longrightarrow> LastIndex k = Some idx \<Longrightarrow> Get t (take idx k) \<noteq> None"
  shows "Get t k \<noteq> None \<Longrightarrow> a \<in> set (ancestors k) \<Longrightarrow> Get t a \<noteq> None"
proof (induction k rule: ancestors.induct)
  case (1 k)
  show ?case
  proof (cases "LastIndex k")
    case None
    with "1.prems" show ?thesis by (simp add: ancestors.simps [of k])
  next
    case (Some idx)
    from assms [OF "1.prems"(1) Some] have p: "Get t (take idx k) \<noteq> None" .
    from "1.prems"(2) Some consider "a = take idx k" | "a \<in> set (ancestors (take idx k))"
      by (auto simp: ancestors.simps [of k])
    then show ?thesis
    proof cases
      case 1
      with p show ?thesis by simp
    next
      case 2
      with "1.IH" [OF Some p] show ?thesis by simp
    qed
  qed
qed

lemma buildCommands_tree:
  obtains t n where "buildTree (Commands cli) (New, False) = (t, n)"
    "commandTree (buildCommands cli zero) = (if n then fillParents t else t)"
    "commandNested (buildCommands cli zero) = n"
proof -
  obtain t n where b: "buildTree (Commands cli) (New, False) = (t, n)"
    by (cases "buildTree (Commands cli) (New, False)")
  then have "commandTree (buildCommands cli zero) = (if n then fillParents t else t)"
    "commandNested (buildCommands cli zero) = n"
    by (simp_all add: buildCommands_def)
  with b show thesis by (rule that)
qed

text \<open>
  Claim C4. In a nested registry, after \<^verbatim>\<open>init\<close>, every ancestor of every key of the
  registry is a key of the registry, and its entry is the placeholder or the factory that
  the caller supplied for it.
\<close>

theorem ancestors_registered:
  assumes "init cli = Some c" and "commandNested c"
    and "isKey (commandTree c) k" and "a \<in> set (ancestors k)"
  shows "\<exists>raw. Get (commandTree c) a = Some raw \<and>
           (raw = placeholder \<or> (\<exists>k0. (k0, raw) \<in> set (Commands cli) \<and> TrimSpace k0 = a))"
proof -
  obtain t n where b: "buildTree (Commands cli) (New, False) = (t, n)"
    and tr: "commandTree (buildCommands cli zero) = (if n then fillParents t else t)"
    and ne: "commandNested (buildCommands cli zero) = n"
    by (rule buildCommands_tree)
  from init_registry [OF assms(1)] tr ne assms(2)
  have T: "commandTree c = fillParents t" by simp
  from assms(3) have "Get (fillParents t) k \<noteq> None" by (simp add: isKey_iff T)
  then have "Get (fillParents t) a \<noteq> None"
    using assms(4) by (rule ancestors_closed [rotated]) (rule fillParents_closed)
  then obtain raw where raw: "Get (fillParents t) a = Some raw" by auto
  have "raw = placeholder \<or> (\<exists>k0. (k0, raw) \<in> set (Commands cli) \<and> TrimSpace k0 = a)"
  proof (cases "a \<in> set (toInsert t)")
    case True
    with raw show ?thesis by (simp add: fillParents_Get)
  next
    case False
    with raw have "Get t a = Some raw" by (simp add: fillParents_Get)
    from buildTree_Get [OF b this] show ?thesis by (simp add: Get_def New_def)
  qed
  with raw T show ?thesis by simp
qed


theorem ancestors_registered_witness:
  "\<exists>c. init (missingParentExample []) = Some c \<and> commandNested c \<and>
       isKey (commandTree c) ''foo bar'' \<and> ''foo'' \<in> set (ancestors ''foo bar'') \<and>
       Get (commandTree c) ''foo'' = Some placeholder"
proof -
  let ?cli = "missingParentExample []"
  have "map_option (\<lambda>c. (commandNested c, isKey (commandTree c) ''foo bar'')) (init ?cli) =
          Some (True, True)"
    by code_simp
  then obtain c where c: "init ?cli = Some c" and n: "commandNested c"
    and k: "isKey (commandTree c) ''foo bar''"
    by auto
  have a: "''foo'' \<in> set (ancestors ''foo bar'')" by code_simp
  have t: "TrimSpace ''foo bar'' = ''foo bar''" by code_simp
  from ancestors_registered [OF c n k a] t
  have "Get (commandTree c) ''foo'' = Some placeholder"
    by (auto simp: missingParentExample_def)
  with c n k a show ?thesis by blast
qed

subsection \<open>Trimmed keys\<close>

lemma leadingSpace_0: "leadingSpace s = 0 \<longleftrightarrow> (\<forall>w \<in> set spaceRunes. \<not> prefix w s)"
proof (cases "find (\<lambda>w. prefix w s) spaceRunes")
  case None
  then have "\<forall>w \<in> set spaceRunes. \<not> prefix w s" by (simp add: find_None_iff)
  moreover from None have "leadingSpace s = 0" by (simp add: leadingSpace_def)
  ultimately show ?thesis by simp
next
  case (Some w)
  from find_Some_set [OF Some] spaceRunes_nonempty [of w] Some show ?thesis
    by (auto simp: leadingSpace_def)
qed

lemma trailingSpace_0: "trailingSpace s = 0 \<longleftrightarrow> (\<forall>w \<in> set spaceRunes. \<not> suffix w s)"
proof (cases "find (\<lambda>w. suffix w s) spaceRunes")
  case None
  then have "\<forall>w \<in> set spaceRunes. \<not> suffix w s" by (simp add: find_None_iff)
  moreover from None have "trailingSpace s = 0" by (simp add: trailingSpace_def)
  ultimately show ?thesis by simp
next
  case (Some w)
  from find_Some_set [OF Some] spaceRunes_nonempty [of w] Some show ?thesis
    by (auto simp: trailingSpace_def)
qed

lemma TrimLeftSpace_leading: "leadingSpace (TrimLeftSpace s) = 0"
  by (induction s rule: TrimLeftSpace.induct) (subst TrimLeftSpace.simps, simp)

lemma TrimRightSpace_trailing: "trailingSpace (TrimRightSpace s) = 0"
  by (induction s rule: TrimRightSpace.induct) (subst TrimRightSpace.simps, simp)

lemma TrimRightSpace_prefix: "prefix (TrimRightSpace s) s"
proof (induction s rule: TrimRightSpace.induct)
  case (1 s)
  show ?case
  proof (cases "trailingSpace s = 0")
    case True
    then show ?thesis by (subst TrimRightSpace.simps) simp
  next
    case False
    from 1 [OF False] have "prefix (TrimRightSpace (take (length s - trailingSpace s) s)) s"
      by (rule prefix_order.trans) (rule take_is_prefix)
    with False show ?thesis by (subst TrimRightSpace.simps) simp
  qed
qed

lemma TrimSpace_trimmed: "leadingSpace (TrimSpace s) = 0 \<and> trailingSpace (TrimSpace s) = 0"
proof -
  have "leadingSpace (TrimLeftSpace s) = 0" by (rule TrimLeftSpace_leading)
  then have "\<forall>w \<in> set spaceRunes. \<not> prefix w (TrimSpace s)"
    unfolding TrimSpace_def leadingSpace_0
    using TrimRightSpace_prefix [of "TrimLeftSpace s"] by (blast intro: prefix_order.trans)
  then show ?thesis by (simp add: leadingSpace_0 TrimSpace_def TrimRightSpace_trailing)
qed

lemma TrimSpace_idem: "TrimSpace (TrimSpace s) = TrimSpace s"
proof -
  from TrimSpace_trimmed [of s]
  have l: "TrimLeftSpace (TrimSpace s) = TrimSpace s"
    and r: "TrimRightSpace (TrimSpace s) = TrimSpace s"
    by (simp_all add: TrimLeftSpace.simps [of "TrimSpace s"] TrimRightSpace.simps [of "TrimSpace s"])
  show ?thesis by (subst TrimSpace_def) (simp add: l r)
qed

text \<open>
  A registry whose first key ends in a tab, U+0009, and whose second key is that key
  followed by a space and \<^verbatim>\<open>bar\<close>.
\<close>

definition tabExample :: "string list \<Rightarrow> CLI" where
  "tabExample args =
     \<lparr>Args = args,
      Commands = [(''foo'' @ [CHR 0x09], Inr (MockCommand [] 5 [])),
                  (''foo'' @ [CHR 0x09] @ '' bar'', Inr (MockCommand [] 6 []))],
      HiddenCommands = [], Name = ''app'', Version = [],
      HelpFunc = (\<lambda>cmds. concat (map fst cmds))\<rparr>"

text \<open>
  Claim C10, amended. Every key of \<^verbatim>\<open>c.Commands\<close> is trimmed before it is inserted:
  its trimmed form is a key of the registry and holds a factory that the caller gave
  under a key with that trimmed form. The untrimmed string is no key of the registry,
  except as a parent that \<^verbatim>\<open>init\<close> has filled in: then the registry is nested, the
  string is an ancestor of a trimmed key, and its entry is the placeholder.
\<close>

theorem keys_inserted_trimmed:
  assumes "init cli = Some c" and "(k, v) \<in> set (Commands cli)"
  shows "(\<exists>k' v'. (k', v') \<in> set (Commands cli) \<and> TrimSpace k' = TrimSpace k \<and>
            Get (commandTree c) (TrimSpace k) = Some v') \<and>
         (k \<noteq> TrimSpace k \<and> isKey (commandTree c) k \<longrightarrow>
            commandNested c \<and> Get (commandTree c) k = Some placeholder \<and>
            (\<exists>k2 \<in> fst ` set (Commands cli). k \<in> set (ancestors (TrimSpace k2))))"
proof -
  obtain t n where b: "buildTree (Commands cli) (New, False) = (t, n)"
    and tr: "commandTree (buildCommands cli zero) = (if n then fillParents t else t)"
    and ne: "commandNested (buildCommands cli zero) = n"
    by (rule buildCommands_tree)
  from init_registry [OF assms(1)] tr ne
  have T: "commandTree c = (if n then fillParents t else t)" and N: "commandNested c = n"
    by simp_all
  have keys: "Get t x \<noteq> None \<longleftrightarrow> x \<in> TrimSpace ` fst ` set (Commands cli)" for x
    using buildTree_keys [OF b, of x] by (simp add: Get_def New_def)
  have vals: "\<exists>k0. (k0, raw) \<in> set (Commands cli) \<and> TrimSpace k0 = x" if "Get t x = Some raw" for x raw
    using buildTree_Get [OF b that] by (simp add: Get_def New_def)
  have same: "Get (commandTree c) x = Get t x" if "Get t x \<noteq> None" for x
  proof (cases n)
    case True
    from that toInsert_new [of x t] have "x \<notin> set (toInsert t)" by auto
    with True T show ?thesis by (simp add: fillParents_Get)
  next
    case False
    with T show ?thesis by simp
  qed
  from assms(2) have "Get t (TrimSpace k) \<noteq> None"
    unfolding keys by force
  then obtain v' where v': "Get t (TrimSpace k) = Some v'" by auto
  with same [of "TrimSpace k"] have g: "Get (commandTree c) (TrimSpace k) = Some v'" by simp
  from vals [OF v'] g
  have first: "\<exists>k' v'. (k', v') \<in> set (Commands cli) \<and> TrimSpace k' = TrimSpace k \<and>
            Get (commandTree c) (TrimSpace k) = Some v'"
    by blast
  have second: "commandNested c \<and> Get (commandTree c) k = Some placeholder \<and>
            (\<exists>k2 \<in> fst ` set (Commands cli). k \<in> set (ancestors (TrimSpace k2)))"
    if neq: "k \<noteq> TrimSpace k" and key: "isKey (commandTree c) k"
  proof -
    have nk: "Get t k = None"
    proof (rule ccontr)
      assume "Get t k \<noteq> None"
      then obtain k0 where "k = TrimSpace k0" unfolding keys by auto
      with neq show False by (simp add: TrimSpace_idem)
    qed
    from key have gk: "Get (commandTree c) k \<noteq> None" by (simp add: isKey_iff)
    with nk T have n: n by (cases n) simp_all
    with gk nk T have ins: "k \<in> set (toInsert t)"
      by (simp add: fillParents_Get split: if_splits)
    with n T have p: "Get (commandTree c) k = Some placeholder" by (simp add: fillParents_Get)
    from toInsert_new [OF ins] obtain k1 where k1: "k1 \<in> set (Walk t)" "k \<in> set (ancestors k1)"
      by blast
    from k1(1) have "Get t k1 \<noteq> None" by (rule Get_Walk [THEN iffD2])
    then obtain k2 where "k2 \<in> fst ` set (Commands cli)" "k1 = TrimSpace k2"
      unfolding keys by auto
    with k1(2) n N p show ?thesis by blast
  qed
  from first second show ?thesis by blast
qed

theorem keys_inserted_trimmed_witness:
  "\<exists>c. init (tabExample []) = Some c \<and>
       (''foo'' @ [CHR 0x09], Inr (MockCommand [] 5 [])) \<in> set (Commands (tabExample [])) \<and>
       TrimSpace (''foo'' @ [CHR 0x09]) = ''foo'' \<and>
       isKey (commandTree c) ''foo'' \<and>
       isKey (commandTree c) (''foo'' @ [CHR 0x09]) \<and>
       commandNested c \<and> Get (commandTree c) (''foo'' @ [CHR 0x09]) = Some placeholder"
proof -
  let ?cli = "tabExample []"
  let ?k = "''foo'' @ [CHR 0x09]"
  have "map_option (\<lambda>c. isKey (commandTree c) ?k) (init ?cli) = Some True"
    by code_simp
  then obtain c where c: "init ?cli = Some c" and k: "isKey (commandTree c) ?k"
    by auto
  have m: "(?k, Inr (MockCommand [] 5 [])) \<in> set (Commands ?cli)"
    by (simp add: tabExample_def)
  have t: "TrimSpace ?k = ''foo''" by code_simp
  from t have neq: "?k \<noteq> TrimSpace ?k" by simp
  from keys_inserted_trimmed [OF c m] neq k t
  have "isKey (commandTree c) ''foo'' \<and> commandNested c \<and>
        Get (commandTree c) ?k = Some placeholder"
    by (auto simp: isKey_def)
  with c m t k show ?thesis by blast
qed

text \<open>
  Claim C10 as stated fails: the first key of the registry above trims to \<^verbatim>\<open>foo\<close>, yet
  the untrimmed key is the parent of the second key, so \<^verbatim>\<open>init\<close> inserts it, the
  argument equal to it is classified as that path, and \<^verbatim>\<open>Run\<close> resolves it and runs
  the placeholder.
\<close>

theorem spaced_key_counterexample:
  "TrimSpace (''foo'' @ [CHR 0x09]) = ''foo'' \<and>
   map_option (\<lambda>c. (subcommand c, isKey (commandTree c) (''foo'' @ [CHR 0x09])))
     (init (tabExample [''foo'' @ [CHR 0x09]])) = Some (''foo'' @ [CHR 0x09], True) \<and>
   map_option (\<lambda>r. (code r, events r)) (Run (tabExample [''foo'' @ [CHR 0x09]])) =
     Some (1, [CallFactory (''foo'' @ [CHR 0x09]), CommandRun (''foo'' @ [CHR 0x09]) [],
               CommandHelp ErrorWriter (''foo'' @ [CHR 0x09])])"
  by code_simp

end
